theory Spec2Isabelle
  imports Complex_Main "HOL-Library.Log_Nat"
begin

section \<open>Python values\<close>

text \<open>
  The program is \<^verbatim>\<open>play.py\<close>: a tabular agent for the game 2048. Its classes
  \<^verbatim>\<open>Node\<close> and \<^verbatim>\<open>Knowledge\<close> and the training script under
  \<^verbatim>\<open>if __name__ == '__main__'\<close> are embedded below, function by function.
  Exceptions are values: a function that can raise returns \<open>py_error + 'a\<close>.
\<close>

datatype py_error = IndexError | KeyError | ValueError | OverflowError

subsection \<open>float\<close>

text \<open>
  A Python float is an IEEE 754 binary64 number. The finite ones are modelled as the
  rationals they denote, and every arithmetic operation rounds its exact result to the
  nearest binary64 number, ties to the even significand: 53 significant bits, with the
  fixed spacing \<open>2 powi - 1074\<close> below \<open>2 powi - 1022\<close> (the subnormal range).
  The two zeros are one value; overflow to infinity and NaN are outside the model.
\<close>

definition rne :: "rat \<Rightarrow> int" where
  "rne x = (let f = \<lfloor>x\<rfloor>; d = x - of_int f in
     if d < 1 / 2 then f else if 1 / 2 < d then f + 1 else if even f then f else f + 1)"

definition ilog2 :: "rat \<Rightarrow> int" where
  "ilog2 x = (case quotient_of x of (p, q) \<Rightarrow>
     let d = bitlen p - bitlen q in if power_int 2 d \<le> x then d else d - 1)"

definition fl :: "rat \<Rightarrow> rat" where
  "fl x = (if x = 0 then 0 else
     let e = max (ilog2 \<bar>x\<bar>) (- 1022); u = power_int 2 (e - 52)
     in of_int (rne (x / u)) * u)"

definition fadd :: "rat \<Rightarrow> rat \<Rightarrow> rat" where
  "fadd x y = fl (x + y)"

definition fsub :: "rat \<Rightarrow> rat \<Rightarrow> rat" where
  "fsub x y = fl (x - y)"

definition fmul :: "rat \<Rightarrow> rat \<Rightarrow> rat" where
  "fmul x y = fl (x * y)"

text \<open>
  \<^verbatim>\<open>x ** k\<close> for a float \<open>x\<close> and a non-negative integer \<open>k\<close>. CPython returns 1.0 for
  \<open>k = 0\<close>; otherwise it calls the \<^verbatim>\<open>pow\<close> of the C library and raises
  \<^verbatim>\<open>OverflowError\<close> when that overflows. The library is not part of the program and its
  \<^verbatim>\<open>pow\<close> need not be correctly rounded: it is a parameter \<open>pw\<close>, with \<open>pw x k\<close> the result
  of the library, \<open>None\<close> when it overflows.
\<close>

definition fpow :: "(rat \<Rightarrow> nat \<Rightarrow> rat option) \<Rightarrow> rat \<Rightarrow> nat \<Rightarrow> py_error + rat" where
  "fpow pw x k =
     (if k = 0 then Inr 1
      else case pw x k of None \<Rightarrow> Inl OverflowError | Some y \<Rightarrow> Inr y)"

text \<open>The value of \<^verbatim>\<open>x ** k\<close> where it does not raise.\<close>

definition pow_value :: "(rat \<Rightarrow> nat \<Rightarrow> rat option) \<Rightarrow> rat \<Rightarrow> nat \<Rightarrow> rat" where
  "pow_value pw x k = (case fpow pw x k of Inl e \<Rightarrow> 0 | Inr y \<Rightarrow> y)"

text \<open>
  What is asked of the library: it reports no overflow for a power of a base in
  \<open>[0, 1)\<close>.
\<close>

definition pow_in_range :: "(rat \<Rightarrow> nat \<Rightarrow> rat option) \<Rightarrow> bool" where
  "pow_in_range pw \<longleftrightarrow> (\<forall>x k. 0 \<le> x \<and> x < 1 \<longrightarrow> pw x k \<noteq> None)"

text \<open>
  A library to run the script with: its \<^verbatim>\<open>pow\<close> is correctly rounded and overflows when
  the rounded power reaches \<open>2 ^ 1024\<close>.
\<close>

definition rounded_pow :: "rat \<Rightarrow> nat \<Rightarrow> rat option" where
  "rounded_pow x k = (if 2 ^ 1024 \<le> \<bar>fl (x ^ k)\<bar> then None else Some (fl (x ^ k)))"

subsection \<open>Sequences\<close>

text \<open>
  \<^verbatim>\<open>xs[i]\<close>: an index below zero counts from the end, and an index outside
  \<open>- len \<dots> len - 1\<close> raises \<^verbatim>\<open>IndexError\<close>. \<open>py_index\<close> gives the position
  that is read or written.
\<close>

definition py_index :: "'a list \<Rightarrow> int \<Rightarrow> py_error + nat" where
  "py_index xs i =
     (if 0 \<le> i \<and> i < int (length xs) then Inr (nat i)
      else if i < 0 \<and> - int (length xs) \<le> i then Inr (nat (int (length xs) + i))
      else Inl IndexError)"

definition py_getitem :: "'a list \<Rightarrow> int \<Rightarrow> py_error + 'a" where
  "py_getitem xs i = (case py_index xs i of Inl e \<Rightarrow> Inl e | Inr j \<Rightarrow> Inr (xs ! j))"

text \<open>\<^verbatim>\<open>max(xs)\<close> raises \<^verbatim>\<open>ValueError\<close> on an empty sequence.\<close>

definition py_max :: "rat list \<Rightarrow> py_error + rat" where
  "py_max xs = (case xs of [] \<Rightarrow> Inl ValueError | x # rest \<Rightarrow> Inr (fold max rest x))"

text \<open>
  \<^verbatim>\<open>random.choice(seq)\<close> reads \<^verbatim>\<open>seq[pos]\<close> at a position \<open>pos\<close> that the
  generator draws uniformly from \<^verbatim>\<open>range(len(seq))\<close>; on an empty sequence it raises
  \<^verbatim>\<open>IndexError\<close>. The drawn position is an argument of the model.
\<close>

definition random_choice :: "'a list \<Rightarrow> nat \<Rightarrow> py_error + 'a" where
  "random_choice seq pos = (if pos < length seq then Inr (seq ! pos) else Inl IndexError)"

text \<open>
  A \<^verbatim>\<open>dict\<close> is its list of items, one per key. \<^verbatim>\<open>d[k] = v\<close> replaces the value
  of a key that is present and adds the item otherwise.
\<close>

fun dict_setitem :: "('k \<times> 'v) list \<Rightarrow> 'k \<Rightarrow> 'v \<Rightarrow> ('k \<times> 'v) list" where
  "dict_setitem [] k v = [(k, v)]"
| "dict_setitem ((k', v') # d) k v =
     (if k' = k then (k, v) # d else (k', v') # dict_setitem d k v)"

text \<open>
  \<^verbatim>\<open>sorted(items, key=f, reverse=True)\<close>: descending by key; the sort is stable, so
  items with equal keys keep their order.
\<close>

definition sorted_reverse :: "('a \<Rightarrow> int) \<Rightarrow> 'a list \<Rightarrow> 'a list" where
  "sorted_reverse f xs = rev (sort_key f (rev xs))"

section \<open>class Node\<close>

record Node =
  action_quality :: "rat list"
  action_count :: "int list"

definition Node_init :: Node where
  "Node_init = \<lparr>action_quality = replicate 4 0, action_count = replicate 4 0\<rparr>"

definition Node_get_estimate :: "Node \<Rightarrow> int \<Rightarrow> py_error + rat" where
  "Node_get_estimate self action = py_getitem (action_quality self) action"

definition update_action :: "Node \<Rightarrow> int \<Rightarrow> rat \<Rightarrow> rat \<Rightarrow> py_error + Node" where
  "update_action self action score alpha =
     (case py_index (action_count self) action of
        Inl e \<Rightarrow> Inl e
      | Inr i \<Rightarrow>
          let self1 = self\<lparr>action_count := (action_count self)[i := action_count self ! i + 1]\<rparr>
          in (case py_index (action_quality self1) action of
                Inl e \<Rightarrow> Inl e
              | Inr j \<Rightarrow>
                  let q = action_quality self1 ! j
                  in Inr (self1\<lparr>action_quality :=
                            (action_quality self1)[j := fadd q (fmul (fsub score q) alpha)]\<rparr>)))"

definition visited :: "Node \<Rightarrow> int" where
  "visited self = sum_list (action_count self)"

definition joint_best_actions :: "Node \<Rightarrow> rat \<Rightarrow> int list" where
  "joint_best_actions self max_quality =
     map (\<lambda>(i, quality). int i)
       (filter (\<lambda>(i, quality). quality = max_quality) (enumerate 0 (action_quality self)))"

definition best_action :: "Node \<Rightarrow> nat \<Rightarrow> py_error + int" where
  "best_action self pos =
     (case py_max (action_quality self) of
        Inl e \<Rightarrow> Inl e
      | Inr max_quality \<Rightarrow> random_choice (joint_best_actions self max_quality) pos)"

section \<open>class Knowledge\<close>

text \<open>A state is \<^verbatim>\<open>tuple(observation)\<close>: the cells of the board, in order.\<close>

type_synonym state = "int list"

record Knowledge =
  nodes :: "(state \<times> Node) list"

definition Knowledge_init :: Knowledge where
  "Knowledge_init = \<lparr>nodes = []\<rparr>"

text \<open>\<^verbatim>\<open>get_node_for_state\<close> turns the \<^verbatim>\<open>KeyError\<close> of a missing key into \<^verbatim>\<open>None\<close>.\<close>

definition get_node_for_state :: "Knowledge \<Rightarrow> state \<Rightarrow> Node option" where
  "get_node_for_state self st = map_of (nodes self) st"

definition add :: "Knowledge \<Rightarrow> state \<Rightarrow> int \<Rightarrow> rat \<Rightarrow> rat \<Rightarrow> py_error + Knowledge" where
  "add self st action score alpha =
     (let nodes1 = (if map_of (nodes self) st = None
                    then dict_setitem (nodes self) st Node_init else nodes self)
      in case map_of nodes1 st of
           None \<Rightarrow> Inl KeyError
         | Some node \<Rightarrow>
             (case update_action node action score alpha of
                Inl e \<Rightarrow> Inl e
              | Inr node' \<Rightarrow> Inr (self\<lparr>nodes := dict_setitem nodes1 st node'\<rparr>)))"

text \<open>
  \<^verbatim>\<open>Knowledge.get_estimate\<close>: calling \<^verbatim>\<open>get_estimate\<close> on \<^verbatim>\<open>None\<close> raises
  \<^verbatim>\<open>AttributeError\<close>, which the \<^verbatim>\<open>except\<close> clause turns into 0.0. Nothing else is
  caught.
\<close>

definition Knowledge_get_estimate :: "Knowledge \<Rightarrow> state \<Rightarrow> int \<Rightarrow> py_error + rat" where
  "Knowledge_get_estimate self st action =
     (case get_node_for_state self st of
        None \<Rightarrow> Inr 0
      | Some node \<Rightarrow> Node_get_estimate node action)"

definition Knowledge_size :: "Knowledge \<Rightarrow> nat" where
  "Knowledge_size self = length (nodes self)"

text \<open>
  \<^verbatim>\<open>dump\<close> prints one line per item; the model returns the items printed, in order
  (\<open>n\<close> is a key of \<^verbatim>\<open>self.nodes\<close>, so \<^verbatim>\<open>self.nodes[n]\<close> is \<open>nod\<close>).
\<close>

fun dump_loop :: "(state \<times> Node) list \<Rightarrow> int \<Rightarrow> int \<Rightarrow> (state \<times> Node) list" where
  "dump_loop [] limit count = []"
| "dump_loop ((n, nod) # rest) limit count =
     (n, nod) # (if limit \<noteq> 0 \<and> count + 1 > limit then [] else dump_loop rest limit (count + 1))"

definition dump :: "Knowledge \<Rightarrow> int \<Rightarrow> (state \<times> Node) list" where
  "dump self limit = dump_loop (sorted_reverse (\<lambda>x. visited (snd x)) (nodes self)) limit 0"

text \<open>A sequence of calls \<^verbatim>\<open>knowledge.add(state, action, score, alpha)\<close>.\<close>

fun adds :: "Knowledge \<Rightarrow> (state \<times> int \<times> rat \<times> rat) list \<Rightarrow> py_error + Knowledge" where
  "adds self [] = Inr self"
| "adds self ((st, action, score, alpha) # calls) =
     (case add self st action score alpha of
        Inl e \<Rightarrow> Inl e
      | Inr self' \<Rightarrow> adds self' calls)"

text \<open>How often an action has been recorded for a state: 0 while the state has no node.\<close>

definition count_of :: "Knowledge \<Rightarrow> state \<Rightarrow> nat \<Rightarrow> int" where
  "count_of self st a =
     (case get_node_for_state self st of None \<Rightarrow> 0 | Some node \<Rightarrow> action_count node ! a)"

definition quality_of :: "Knowledge \<Rightarrow> state \<Rightarrow> nat \<Rightarrow> rat" where
  "quality_of self st a =
     (case get_node_for_state self st of None \<Rightarrow> 0 | Some node \<Rightarrow> action_quality node ! a)"

text \<open>Every node of the program has four qualities and four counts.\<close>

definition node_ok :: "Node \<Rightarrow> bool" where
  "node_ok node \<longleftrightarrow> length (action_quality node) = 4 \<and> length (action_count node) = 4"

definition knowledge_ok :: "Knowledge \<Rightarrow> bool" where
  "knowledge_ok self \<longleftrightarrow> list_all (\<lambda>(st, node). node_ok node) (nodes self)"

text \<open>The node \<^verbatim>\<open>add\<close> updates: the one stored for the state, or a new one.\<close>

definition node_for :: "Knowledge \<Rightarrow> state \<Rightarrow> Node" where
  "node_for kn st = (case get_node_for_state kn st of None \<Rightarrow> Node_init | Some node \<Rightarrow> node)"

text \<open>Nodes and knowledge used as examples.\<close>

definition warm_node :: Node where
  "warm_node = \<lparr>action_quality = [1, 0, 0, 0], action_count = [1, 0, 0, 0]\<rparr>"

definition two_states :: Knowledge where
  "two_states =
     \<lparr>nodes = [([2, 0], \<lparr>action_quality = [3 / 4, 0, 0, 1 / 4], action_count = [1, 0, 0, 1]\<rparr>),
               ([0, 2], \<lparr>action_quality = [0, 1 / 2, 0, 0], action_count = [0, 1, 0, 0]\<rparr>)]\<rparr>"

definition one_state :: Knowledge where
  "one_state =
     \<lparr>nodes = [([2, 0], \<lparr>action_quality = [3 / 4, 0, 0, 0], action_count = [1, 0, 0, 0]\<rparr>)]\<rparr>"

text \<open>
  The distribution of \<^verbatim>\<open>best_action\<close>: the share of the positions
  \<^verbatim>\<open>random.choice\<close> can draw at which the action \<open>a\<close> is returned.
\<close>

definition best_action_prob :: "Node \<Rightarrow> int \<Rightarrow> rat" where
  "best_action_prob self a =
     (case py_max (action_quality self) of
        Inl e \<Rightarrow> 0
      | Inr max_quality \<Rightarrow>
          let m = length (joint_best_actions self max_quality)
          in of_nat (length (filter (\<lambda>pos. best_action self pos = Inr a) [0..<m])) / of_nat m)"

text \<open>
  The actions of maximal quality among the four entries of a node, stated without the
  program's \<^verbatim>\<open>max\<close>.
\<close>

definition maximal_actions :: "Node \<Rightarrow> int set" where
  "maximal_actions self =
     {a \<in> {0..3}. \<forall>b\<in>{0..3}. action_quality self ! nat b \<le> action_quality self ! nat a}"

definition tied_node :: Node where
  "tied_node = \<lparr>action_quality = [1 / 2, 0, 1 / 2, 1 / 4], action_count = [1, 0, 1, 1]\<rparr>"

section \<open>The training script\<close>

subsection \<open>The TD(\<open>\<lambda>\<close>) estimate of a finished episode\<close>

text \<open>An entry of \<^verbatim>\<open>history\<close> is \<^verbatim>\<open>(last_observation, action, reward)\<close>.\<close>

type_synonym step = "state \<times> int \<times> rat"

definition reward_of :: "step \<Rightarrow> rat" where
  "reward_of h = snd (snd h)"

text \<open>
  \<^verbatim>\<open>(1. - llambda) * (llambda**td_factor)\<close>: the difference is computed first, then the
  power, which can raise.
\<close>

definition lambda_multiplier ::
  "(rat \<Rightarrow> nat \<Rightarrow> rat option) \<Rightarrow> rat \<Rightarrow> nat \<Rightarrow> py_error + rat" where
  "lambda_multiplier pw llambda td_factor =
     (case fpow pw llambda td_factor of
        Inl e \<Rightarrow> Inl e
      | Inr p \<Rightarrow> Inr (fmul (fsub 1 llambda) p))"

text \<open>The first loop over \<^verbatim>\<open>history\<close>, with \<^verbatim>\<open>td_factor = 0\<close>.\<close>

fun td_first ::
  "(rat \<Rightarrow> nat \<Rightarrow> rat option) \<Rightarrow> rat \<Rightarrow> step list \<Rightarrow> py_error + rat list" where
  "td_first pw llambda [] = Inr []"
| "td_first pw llambda (h # history) =
     (case lambda_multiplier pw llambda 0 of
        Inl e \<Rightarrow> Inl e
      | Inr m \<Rightarrow>
          (case td_first pw llambda history of
             Inl e \<Rightarrow> Inl e
           | Inr estimate \<Rightarrow> Inr (fmul (reward_of h) m # estimate)))"

text \<open>
  The inner loop \<^verbatim>\<open>for i in range(len(history) - td_factor)\<close>, for the multiplier \<open>m\<close> of
  this \<^verbatim>\<open>td_factor\<close>.
\<close>

definition td_pass :: "step list \<Rightarrow> nat \<Rightarrow> rat \<Rightarrow> rat list \<Rightarrow> rat list" where
  "td_pass history td_factor m estimate =
     fold (\<lambda>i est. est[i := fadd (est ! i) (fmul (reward_of (history ! (i + td_factor))) m)])
          [0..<length history - td_factor] estimate"

text \<open>
  The outer loop \<^verbatim>\<open>for td_factor in range(1, min(10, len(history)))\<close>, over the values of
  \<^verbatim>\<open>td_factor\<close> still to come.
\<close>

fun td_passes ::
  "(rat \<Rightarrow> nat \<Rightarrow> rat option) \<Rightarrow> rat \<Rightarrow> step list \<Rightarrow> nat list \<Rightarrow> rat list \<Rightarrow>
   py_error + rat list" where
  "td_passes pw llambda history [] estimate = Inr estimate"
| "td_passes pw llambda history (td_factor # rest) estimate =
     (case lambda_multiplier pw llambda td_factor of
        Inl e \<Rightarrow> Inl e
      | Inr m \<Rightarrow> td_passes pw llambda history rest (td_pass history td_factor m estimate))"

definition td_lambda_estimate ::
  "(rat \<Rightarrow> nat \<Rightarrow> rat option) \<Rightarrow> rat \<Rightarrow> step list \<Rightarrow> py_error + rat list" where
  "td_lambda_estimate pw llambda history =
     (case td_first pw llambda history of
        Inl e \<Rightarrow> Inl e
      | Inr estimate \<Rightarrow>
          td_passes pw llambda history [1..<min 10 (length history)] estimate)"

text \<open>
  The algorithm of the specification, with the largest lookahead \<open>K\<close> and the power \<open>p\<close>
  as parameters and both bounds of each range included:
  \<^verbatim>\<open>for i in 0..n-1: target[i] = r[i] * (1 - lam)\<close>,
  \<^verbatim>\<open>for k in 1 .. min(K, n-1): weight = (1 - lam) * lam^k;\<close>
  \<^verbatim>\<open>for i in 0 .. n-1-k: target[i] += r[i+k] * weight\<close>.
  For an empty episode \<open>n - 1\<close> is cut at 0 and all three ranges are empty.
\<close>

definition td_spec :: "nat \<Rightarrow> (rat \<Rightarrow> nat \<Rightarrow> rat) \<Rightarrow> rat \<Rightarrow> rat list \<Rightarrow> rat list" where
  "td_spec K p lam r =
     fold (\<lambda>k target.
             let weight = fmul (fsub 1 lam) (p lam k)
             in fold (\<lambda>i target. target[i := fadd (target ! i) (fmul (r ! (i + k)) weight)])
                     [0..<Suc (length r - 1 - k)] target)
          [1..<Suc (min K (length r - 1))]
          (map (\<lambda>x. fmul x (fsub 1 lam)) r)"

text \<open>Two recorded episodes: rewards 1, 0, 0, 0, and ten rewards 0 followed by a reward 1.\<close>

definition four_steps :: "step list" where
  "four_steps = [([0, 2], 0, 1), ([2, 0], 1, 0), ([2, 2], 2, 0), ([4, 0], 3, 0)]"

definition eleven_steps :: "step list" where
  "eleven_steps = replicate 10 ([0, 2], 0, 0) @ [([2, 0], 1, 1)]"

subsection \<open>The environment and the random number generator\<close>

text \<open>
  The gym environment and Python's random number generator are outside the program.
  They are a parameter: a state \<open>'w\<close> of the outside world and the calls the script makes,
  each returning its result and the next state.
  \<^item> \<open>env_reset\<close> is \<^verbatim>\<open>env.reset()\<close>;
  \<^item> \<open>env_step\<close> is \<^verbatim>\<open>env.step(action)\<close>, giving the observation, the reward and
    the flag \<^verbatim>\<open>done\<close> (\<^verbatim>\<open>info\<close> is not used);
  \<^item> \<open>env_sample\<close> is \<^verbatim>\<open>env.action_space.sample()\<close>;
  \<^item> \<open>random_uniform\<close> is \<^verbatim>\<open>random.uniform(0, 1)\<close>;
  \<^item> \<open>random_position\<close> is the position \<^verbatim>\<open>random.choice\<close> draws in a sequence of
    the given length.
\<close>

record 'w World =
  env_reset :: "'w \<Rightarrow> state \<times> 'w"
  env_step :: "int \<Rightarrow> 'w \<Rightarrow> (state \<times> rat \<times> bool) \<times> 'w"
  env_sample :: "'w \<Rightarrow> int \<times> 'w"
  random_uniform :: "'w \<Rightarrow> rat \<times> 'w"
  random_position :: "nat \<Rightarrow> 'w \<Rightarrow> nat \<times> 'w"

text \<open>The variables of the script that the episode loop reads and writes.\<close>

record 'w main_state =
  knowledge :: Knowledge
  total_moves :: int
  observation :: state
  cumulative_reward :: rat
  history :: "step list"
  best_actions_used :: int
  done_flag :: bool
  world :: 'w

text \<open>
  The choice of the action (the \<^verbatim>\<open>if\<close> at the head of the step loop). The position that
  \<^verbatim>\<open>random.choice\<close> draws inside \<^verbatim>\<open>best_action\<close> is taken from the world here, for the
  length of the list of joint best actions; an empty list of qualities raises
  \<^verbatim>\<open>ValueError\<close> before any draw, as in \<^verbatim>\<open>best_action\<close>.
\<close>

definition select_action ::
  "'w World \<Rightarrow> rat \<Rightarrow> 'w main_state \<Rightarrow> py_error + (int \<times> 'w main_state)" where
  "select_action W epsilon s =
     (case random_uniform W (world s) of (r, w1) \<Rightarrow>
        if r > epsilon then
          (case get_node_for_state (knowledge s) (observation s) of
             Some state_node \<Rightarrow>
               (case py_max (action_quality state_node) of
                  Inl e \<Rightarrow> Inl e
                | Inr max_quality \<Rightarrow>
                    (case random_position W (length (joint_best_actions state_node max_quality)) w1 of
                       (pos, w2) \<Rightarrow>
                         (case best_action state_node pos of
                            Inl e \<Rightarrow> Inl e
                          | Inr action \<Rightarrow>
                              Inr (action, s\<lparr>best_actions_used := best_actions_used s + 1,
                                             world := w2\<rparr>))))
           | None \<Rightarrow>
               (case env_sample W w1 of (action, w2) \<Rightarrow> Inr (action, s\<lparr>world := w2\<rparr>)))
        else
          (case env_sample W w1 of (action, w2) \<Rightarrow> Inr (action, s\<lparr>world := w2\<rparr>)))"

text \<open>The step loop \<^verbatim>\<open>for t in range(1000)\<close>, from the iteration \<open>t\<close> on.\<close>

function episode_steps ::
  "'w World \<Rightarrow> rat \<Rightarrow> nat \<Rightarrow> 'w main_state \<Rightarrow> py_error + 'w main_state" where
  "episode_steps W epsilon t s =
     (if t < 1000 then
        (case select_action W epsilon s of
           Inl e \<Rightarrow> Inl e
         | Inr (action, s1) \<Rightarrow>
             (case env_step W action (world s1) of
                ((obs, reward, done), w') \<Rightarrow>
                  let s2 = s1\<lparr>observation := obs,
                              world := w',
                              history := history s1 @ [(observation s1, action, reward)],
                              cumulative_reward := fadd (cumulative_reward s1) reward,
                              done_flag := done\<rparr>
                  in if done then Inr (s2\<lparr>total_moves := total_moves s2 + (int t + 1)\<rparr>)
                     else episode_steps W epsilon (t + 1) s2))
      else Inr s)"
  by pat_completeness auto
termination
  by (relation "measure (\<lambda>(W, epsilon, t, s). 1000 - t)") auto

declare episode_steps.simps [simp del]

text \<open>
  The loop \<^verbatim>\<open>for idx, h in enumerate(history): knowledge.add(h[0], h[1],
  td_lambda_estimate[idx], alpha)\<close>.
\<close>

fun add_all ::
  "Knowledge \<Rightarrow> (nat \<times> step) list \<Rightarrow> rat list \<Rightarrow> rat \<Rightarrow> py_error + Knowledge" where
  "add_all kn [] estimate alpha = Inr kn"
| "add_all kn ((idx, h) # rest) estimate alpha =
     (case add kn (fst h) (fst (snd h)) (estimate ! idx) alpha of
        Inl e \<Rightarrow> Inl e
      | Inr kn' \<Rightarrow> add_all kn' rest estimate alpha)"

text \<open>
  One pass of the loop over the episodes: reset, play, compute the estimates, update the
  knowledge. The statistics and the report (mean squared error, high score, highest
  tile, the printed line) read these variables and write none of them; they are left out.
\<close>

definition run_episode ::
  "'w World \<Rightarrow> (rat \<Rightarrow> nat \<Rightarrow> rat option) \<Rightarrow> rat \<Rightarrow> rat \<Rightarrow> rat \<Rightarrow> 'w main_state \<Rightarrow>
   py_error + 'w main_state" where
  "run_episode W pw alpha epsilon llambda s =
     (case env_reset W (world s) of (obs, w0) \<Rightarrow>
        (case episode_steps W epsilon 0
                (s\<lparr>observation := obs, world := w0, cumulative_reward := 0, history := [],
                   best_actions_used := 0\<rparr>) of
           Inl e \<Rightarrow> Inl e
         | Inr s1 \<Rightarrow>
             (case td_lambda_estimate pw llambda (history s1) of
                Inl e \<Rightarrow> Inl e
              | Inr estimate \<Rightarrow>
                  (case add_all (knowledge s1) (enumerate 0 (history s1)) estimate alpha of
                     Inl e \<Rightarrow> Inl e
                   | Inr kn \<Rightarrow> Inr (s1\<lparr>knowledge := kn\<rparr>)))))"


text \<open>
  To say where the step loop stops: the body of the loop without the test on
  \<^verbatim>\<open>done\<close> (choose the action, step the environment, record the step), the state after
  \<open>n\<close> passes of this body, and the state in which the step loop starts (the reset and the
  four assignments before it).
\<close>

definition step_body :: "'w World \<Rightarrow> rat \<Rightarrow> 'w main_state \<Rightarrow> py_error + 'w main_state" where
  "step_body W epsilon s =
     (case select_action W epsilon s of
        Inl e \<Rightarrow> Inl e
      | Inr (action, s1) \<Rightarrow>
          (case env_step W action (world s1) of
             ((obs, reward, done), w') \<Rightarrow>
               Inr (s1\<lparr>observation := obs,
                       world := w',
                       history := history s1 @ [(observation s1, action, reward)],
                       cumulative_reward := fadd (cumulative_reward s1) reward,
                       done_flag := done\<rparr>)))"

fun passes :: "'w World \<Rightarrow> rat \<Rightarrow> nat \<Rightarrow> 'w main_state \<Rightarrow> py_error + 'w main_state" where
  "passes W epsilon 0 s = Inr s"
| "passes W epsilon (Suc n) s =
     (case step_body W epsilon s of
        Inl e \<Rightarrow> Inl e
      | Inr s' \<Rightarrow> passes W epsilon n s')"

definition reset_episode :: "'w World \<Rightarrow> 'w main_state \<Rightarrow> 'w main_state" where
  "reset_episode W s =
     (case env_reset W (world s) of (obs, w0) \<Rightarrow>
        s\<lparr>observation := obs, world := w0, cumulative_reward := 0, history := [],
          best_actions_used := 0\<rparr>)"

text \<open>
  What the script relies on: the action space of the game has the four actions 0 to 3,
  and \<^verbatim>\<open>random.choice\<close> draws a position inside the sequence.
\<close>

definition world_ok :: "'w World \<Rightarrow> bool" where
  "world_ok W \<longleftrightarrow>
     (\<forall>w. 0 \<le> fst (env_sample W w) \<and> fst (env_sample W w) < 4) \<and>
     (\<forall>n w. 0 < n \<longrightarrow> fst (random_position W n w) < n)"

text \<open>
  Two environments to run the script on. In \<open>mock_world\<close> every step has reward 1 and
  the third step of an episode ends it; in \<open>endless_world\<close> no step ever ends the
  episode. The state of both is the number of steps since the last reset; the random
  draws are constant.
\<close>

definition mock_world :: "nat World" where
  "mock_world =
     \<lparr>env_reset = (\<lambda>w. ([0], 0)),
      env_step = (\<lambda>action w. (([int (Suc w)], 1, 3 \<le> Suc w), Suc w)),
      env_sample = (\<lambda>w. (1, w)),
      random_uniform = (\<lambda>w. (1 / 2, w)),
      random_position = (\<lambda>n w. (0, w))\<rparr>"

definition endless_world :: "nat World" where
  "endless_world =
     \<lparr>env_reset = (\<lambda>w. ([0], 0)),
      env_step = (\<lambda>action w. (([int (Suc w)], 1, False), Suc w)),
      env_sample = (\<lambda>w. (1, w)),
      random_uniform = (\<lambda>w. (1 / 2, w)),
      random_position = (\<lambda>n w. (0, w))\<rparr>"

definition start_state :: "nat main_state" where
  "start_state =
     \<lparr>knowledge = Knowledge_init, total_moves = 0, observation = [], cumulative_reward = 0,
      history = [], best_actions_used = 0, done_flag = False, world = 0\<rparr>"

definition known_state :: "nat main_state" where
  "known_state = start_state\<lparr>knowledge := one_state, observation := [2, 0]\<rparr>"

text \<open>The action of a recorded step; the four actions of the game are 0 to 3.\<close>

definition action_of :: "step \<Rightarrow> int" where
  "action_of h = fst (snd h)"

definition actions_ok :: "step list \<Rightarrow> bool" where
  "actions_ok hist \<longleftrightarrow> list_all (\<lambda>h. 0 \<le> action_of h \<and> action_of h < 4) hist"

definition calls_ok :: "(state \<times> int \<times> rat \<times> rat) list \<Rightarrow> bool" where
  "calls_ok calls \<longleftrightarrow> list_all (\<lambda>c. 0 \<le> fst (snd c) \<and> fst (snd c) < 4) calls"

text \<open>
  The calls of \<^verbatim>\<open>add\<close> that fold a recorded episode into the knowledge: one for each step,
  with the estimate of the same index.
\<close>

definition fold_calls :: "rat \<Rightarrow> rat list \<Rightarrow> step list \<Rightarrow> (state \<times> int \<times> rat \<times> rat) list" where
  "fold_calls alpha estimate hist =
     map (\<lambda>(idx, h). (fst h, fst (snd h), estimate ! idx, alpha)) (enumerate 0 hist)"

text \<open>The state of the script after one episode in \<open>mock_world\<close>.\<close>

definition mock_result :: "nat main_state" where
  "mock_result =
     \<lparr>knowledge =
        \<lparr>nodes =
           [([0], \<lparr>action_quality = [0, 7 / 16, 0, 0], action_count = [0, 1, 0, 0]\<rparr>),
            ([1], \<lparr>action_quality = [0, 3 / 8, 0, 0], action_count = [0, 1, 0, 0]\<rparr>),
            ([2], \<lparr>action_quality = [0, 1 / 4, 0, 0], action_count = [0, 1, 0, 0]\<rparr>)]\<rparr>,
      total_moves = 3, observation = [3], cumulative_reward = 3,
      history = [([0], 1, 1), ([1], 1, 1), ([2], 1, 1)],
      best_actions_used = 0, done_flag = True, world = 3\<rparr>"


section \<open>Rounding\<close>

text \<open>
  Facts about the rounding function: it leaves integers times a power of two with a
  significand of at most 53 bits alone, and rounding twice is rounding once.
\<close>

lemma rne_of_int: "rne (of_int n) = n"
  by (simp add: rne_def)

lemma rne_lower: "of_int a \<le> x \<Longrightarrow> a \<le> rne x"
  unfolding rne_def Let_def by (auto simp: le_floor_iff) linarith+

lemma rne_upper:
  assumes "x \<le> of_int b"
  shows "rne x \<le> b"
proof -
  have fb: "\<lfloor>x\<rfloor> \<le> b" using assms by (simp add: floor_le_iff) 
  show ?thesis
  proof (cases "x - of_int \<lfloor>x\<rfloor> < 1 / 2")
    case True
    then show ?thesis using fb by (simp add: rne_def Let_def)
  next
    case False
    have "\<lfloor>x\<rfloor> \<noteq> b"
    proof
      assume "\<lfloor>x\<rfloor> = b"
      then have "x - of_int \<lfloor>x\<rfloor> \<le> 0" using assms by simp
      with False show False by simp
    qed
    with fb have "\<lfloor>x\<rfloor> + 1 \<le> b" by simp
    then show ?thesis using fb by (simp add: rne_def Let_def)
  qed
qed

lemma powi2_less_iff: "power_int (2::rat) a < power_int 2 b \<longleftrightarrow> a < b"
  by (meson one_less_numeral_iff power_int_strict_increasing power_int_increasing one_le_numeral
    semiring_norm(76) verit_comp_simplify1(3))

lemma bitlen_powi:
  assumes "0 < p"
  shows "power_int (2::rat) (bitlen p - 1) \<le> of_int p" and "of_int p < power_int (2::rat) (bitlen p)"
proof -
  from assms have b1: "1 \<le> bitlen p" by (auto simp: bitlen_alt_def)
  from bitlen_bounds[OF assms]
  have lo: "2 ^ nat (bitlen p - 1) \<le> p" and hi: "p < 2 ^ nat (bitlen p)" by auto
  have "(of_int (2 ^ nat (bitlen p - 1)) :: rat) \<le> of_int p"
    using lo by (simp only: of_int_le_iff)
  then show "power_int (2::rat) (bitlen p - 1) \<le> of_int p"
    using b1 by (simp add: power_int_def)
  have "(of_int p :: rat) < of_int (2 ^ nat (bitlen p))"
    using hi by (simp only: of_int_less_iff)
  then show "of_int p < power_int (2::rat) (bitlen p)"
    using b1 by (simp add: power_int_def)
qed

lemma ilog2_bounds:
  assumes "0 < x"
  shows "power_int 2 (ilog2 x) \<le> x" and "x < power_int 2 (ilog2 x + 1)"
proof -
  obtain p q where pq: "quotient_of x = (p, q)" by (cases "quotient_of x")
  then have q: "0 < q" by (rule quotient_of_denom_pos)
  have x: "x = of_int p / of_int q" using pq by (rule quotient_of_div)
  with assms q have p: "0 < p" by (simp add: zero_less_divide_iff)
  define d where "d = bitlen p - bitlen q"
  have qr: "(0::rat) < of_int q" using q by simp
  have lo: "power_int (2::rat) (d - 1) < x"
  proof -
    have "power_int (2::rat) (d - 1) * of_int q < power_int 2 (d - 1) * power_int 2 (bitlen q)"
      using bitlen_powi(2)[OF q] by simp
    also have "\<dots> = power_int 2 (bitlen p - 1)"
      by (simp add: d_def flip: power_int_add)
    also have "\<dots> \<le> of_int p" by (rule bitlen_powi(1)[OF p])
    finally show ?thesis using qr by (simp add: x pos_less_divide_eq)
  qed
  have hi: "x < power_int (2::rat) (d + 1)"
  proof -
    have "of_int p < power_int (2::rat) (bitlen p)" by (rule bitlen_powi(2)[OF p])
    also have "\<dots> = power_int 2 (d + 1) * power_int 2 (bitlen q - 1)"
      by (simp add: d_def flip: power_int_add)
    also have "\<dots> \<le> power_int 2 (d + 1) * of_int q"
      using bitlen_powi(1)[OF q] by simp
    finally show ?thesis using qr by (simp add: x pos_divide_less_eq)
  qed
  have il: "ilog2 x = (if power_int 2 d \<le> x then d else d - 1)"
    by (simp add: ilog2_def pq d_def Let_def)
  show "power_int 2 (ilog2 x) \<le> x" using lo by (simp add: il)
  show "x < power_int 2 (ilog2 x + 1)" using hi by (auto simp add: il)
qed

lemma ilog2_unique:
  assumes "power_int 2 e \<le> x" and "x < power_int 2 (e + 1)"
  shows "ilog2 x = e"
proof -
  have pos: "0 < x" using assms(1) by (rule less_le_trans[rotated]) simp
  from ilog2_bounds[OF pos] assms
  have "power_int (2::rat) (ilog2 x) < power_int 2 (e + 1)"
    and "power_int (2::rat) e < power_int 2 (ilog2 x + 1)"
    by linarith+
  then show ?thesis by (simp add: powi2_less_iff)
qed


lemma powi2_split: "power_int (2::rat) e = 2 ^ 52 * power_int 2 (e - 52)"
proof -
  have "power_int (2::rat) e = power_int 2 (52 + (e - 52))" by simp
  also have "\<dots> = power_int 2 52 * power_int 2 (e - 52)"
    by (subst power_int_add) simp_all
  finally show ?thesis by simp
qed

lemma powi2_succ: "power_int (2::rat) (e + 1) = 2 * power_int 2 e"
  by (simp add: power_int_add_1)

lemma fl_grid:
  assumes e: "- 1022 \<le> e" and n: "\<bar>n\<bar> < 2 ^ 53" and norm: "2 ^ 52 \<le> \<bar>n\<bar> \<or> e = - 1022"
  shows "fl (of_int n * power_int 2 (e - 52)) = of_int n * power_int 2 (e - 52)"
proof (cases "n = 0")
  case True
  then show ?thesis by (simp add: fl_def)
next
  case False
  define u :: rat where "u = power_int 2 (e - 52)"
  define y :: rat where "y = of_int n * u"
  have u: "0 < u" by (simp add: u_def)
  have ay: "\<bar>y\<bar> = of_int \<bar>n\<bar> * u" using u by (simp add: y_def abs_mult)
  have ypos: "0 < \<bar>y\<bar>" using False u by (simp add: y_def)
  have pe: "power_int (2::rat) e = 2 ^ 52 * u" unfolding u_def by (rule powi2_split)
  have pe1: "power_int (2::rat) (e + 1) = 2 ^ 53 * u"
    by (simp only: powi2_succ pe) simp
  have hi: "\<bar>y\<bar> < power_int 2 (e + 1)"
  proof -
    have "(of_int \<bar>n\<bar> :: rat) < of_int (2 ^ 53)" using n by (simp only: of_int_less_iff)
    then show ?thesis using u by (simp add: ay pe1)
  qed
  have ex: "max (ilog2 \<bar>y\<bar>) (- 1022) = e"
  proof (cases "2 ^ 52 \<le> \<bar>n\<bar>")
    case True
    then have "(of_int (2 ^ 52) :: rat) \<le> of_int \<bar>n\<bar>" by (simp only: of_int_le_iff)
    then have "power_int 2 e \<le> \<bar>y\<bar>" using u by (simp add: ay pe)
    then have "ilog2 \<bar>y\<bar> = e" using hi by (rule ilog2_unique)
    then show ?thesis using e by simp
  next
    case small: False
    with norm have e': "e = - 1022" by simp
    from small have "(of_int \<bar>n\<bar> :: rat) < of_int (2 ^ 52)" by simp
    then have "\<bar>y\<bar> < power_int 2 e" using u by (simp add: ay pe)
    with ilog2_bounds(1)[OF ypos] have "power_int (2::rat) (ilog2 \<bar>y\<bar>) < power_int 2 e" by simp
    then have "ilog2 \<bar>y\<bar> < e" by (simp add: powi2_less_iff)
    then show ?thesis using e' by simp
  qed
  have "fl y = of_int (rne (y / u)) * u"
    using ypos ex by (simp add: fl_def Let_def u_def)
  also have "y / u = of_int n" using u by (simp add: y_def)
  finally show ?thesis by (simp add: rne_of_int y_def u_def)
qed

lemma fl_idem: "fl (fl x) = fl x"
proof (cases "x = 0")
  case True
  then show ?thesis by (simp add: fl_def)
next
  case False
  define e where "e = max (ilog2 \<bar>x\<bar>) (- 1022)"
  define u :: rat where "u = power_int 2 (e - 52)"
  define n where "n = rne (x / u)"
  have u: "0 < u" by (simp add: u_def)
  have e: "- 1022 \<le> e" by (simp add: e_def)
  have flx: "fl x = of_int n * u"
    using False by (simp add: fl_def Let_def e_def u_def n_def)
  have ax: "0 < \<bar>x\<bar>" using False by simp
  have pe: "power_int (2::rat) e = 2 ^ 52 * u" unfolding u_def by (rule powi2_split)
  have pe1: "power_int (2::rat) (e + 1) = 2 ^ 53 * u"
    by (simp only: powi2_succ pe) simp
  have "\<bar>x\<bar> < power_int 2 (ilog2 \<bar>x\<bar> + 1)" by (rule ilog2_bounds(2)[OF ax])
  also have "\<dots> \<le> power_int 2 (e + 1)" by (rule power_int_increasing) (simp_all add: e_def)
  finally have xhi: "\<bar>x\<bar> < 2 ^ 53 * u" by (simp add: pe1)
  then have q1: "x / u < 2 ^ 53" and q2: "- (2 ^ 53) < x / u"
    using u by (simp_all add: abs_less_iff pos_divide_less_eq pos_less_divide_eq)
  have nle: "n \<le> 2 ^ 53"
  proof -
    have "x / u \<le> of_int (2 ^ 53)" using q1 by simp
    then show ?thesis unfolding n_def by (rule rne_upper)
  qed
  have nge: "- (2 ^ 53) \<le> n"
  proof -
    have "of_int (- (2 ^ 53)) \<le> x / u" using q2 by simp
    then show ?thesis unfolding n_def by (rule rne_lower)
  qed
  have norm: "2 ^ 52 \<le> \<bar>n\<bar> \<or> e = - 1022"
  proof (cases "- 1022 \<le> ilog2 \<bar>x\<bar>")
    case True
    then have "ilog2 \<bar>x\<bar> = e" by (simp add: e_def)
    with ilog2_bounds(1)[OF ax] have "power_int 2 e \<le> \<bar>x\<bar>" by simp
    then have "2 ^ 52 * u \<le> \<bar>x\<bar>" by (simp only: pe)
    then have lo: "2 ^ 52 \<le> \<bar>x / u\<bar>" using u by (simp add: abs_divide pos_le_divide_eq)
    have "2 ^ 52 \<le> \<bar>n\<bar>"
    proof (cases "0 \<le> x")
      case True
      then have "of_int (2 ^ 52) \<le> x / u" using lo u by simp
      then have "2 ^ 52 \<le> n" unfolding n_def by (rule rne_lower)
      then show ?thesis by simp
    next
      case False
      then have "x / u < 0" using u by (simp add: divide_less_0_iff)
      then have "x / u \<le> of_int (- (2 ^ 52))" using lo by simp
      then have "n \<le> - (2 ^ 52)" unfolding n_def by (rule rne_upper)
      then show ?thesis by simp
    qed
    then show ?thesis ..
  next
    case False
    then show ?thesis by (simp add: e_def)
  qed
  show ?thesis
  proof (cases "\<bar>n\<bar> < 2 ^ 53")
    case True
    from fl_grid[OF e True norm] show ?thesis by (simp add: flx u_def)
  next
    case False
    with nle nge have n2: "\<bar>n\<bar> = 2 ^ 53" by linarith
    define m where "m = n div 2"
    from n2 have "n = 2 ^ 53 \<or> n = - (2 ^ 53)" by linarith
    then have nm: "n = 2 * m" and m: "\<bar>m\<bar> = 2 ^ 52" by (auto simp: m_def)
    have u2: "power_int (2::rat) (e + 1 - 52) = 2 * u"
    proof -
      have "e + 1 - 52 = (e - 52) + 1" by simp
      then show ?thesis unfolding u_def by (simp only: powi2_succ)
    qed
    have eq: "of_int n * u = of_int m * (2 * u)"
      by (simp add: nm)
    have "fl (of_int m * power_int 2 (e + 1 - 52)) = of_int m * power_int 2 (e + 1 - 52)"
      by (rule fl_grid) (use e m in simp_all)
    then have "fl (of_int m * (2 * u)) = of_int m * (2 * u)" by (simp only: u2)
    then show ?thesis by (simp only: flx eq)
  qed
qed

lemma fl_0: "fl 0 = 0"
  by (simp add: fl_def)

lemma fl_1: "fl 1 = 1"
  using fl_grid[of 0 "2 ^ 52"] by (simp add: power_int_minus)

section \<open>Nodes and knowledge\<close>

lemma py_index_in_range: "0 \<le> i \<Longrightarrow> i < int (length xs) \<Longrightarrow> py_index xs i = Inr (nat i)"
  by (simp add: py_index_def)

lemma py_index_from_end:
  "i < 0 \<Longrightarrow> - int (length xs) \<le> i \<Longrightarrow> py_index xs i = Inr (nat (int (length xs) + i))"
  by (simp add: py_index_def)

lemma py_index_above: "int (length xs) \<le> i \<Longrightarrow> py_index xs i = Inl IndexError"
  by (simp add: py_index_def)

lemma py_index_below: "i < - int (length xs) \<Longrightarrow> py_index xs i = Inl IndexError"
  by (simp add: py_index_def)

lemma py_index_less: "py_index xs i = Inr j \<Longrightarrow> j < length xs"
  by (auto simp: py_index_def split: if_splits)

lemma update_action_ok:
  assumes "node_ok node" and "0 \<le> a" and "a < 4"
  shows "update_action node a v alpha =
         Inr \<lparr>action_quality = (action_quality node)
                  [nat a := fadd (action_quality node ! nat a)
                                 (fmul (fsub v (action_quality node ! nat a)) alpha)],
              action_count = (action_count node)[nat a := action_count node ! nat a + 1]\<rparr>"
  using assms by (simp add: update_action_def node_ok_def py_index_in_range Let_def)

lemma update_action_node_ok:
  assumes "update_action node a v alpha = Inr node'" and "node_ok node"
  shows "node_ok node'"
  using assms
  by (auto simp: update_action_def node_ok_def Let_def split: sum.splits)

lemma Node_init_ok: "node_ok Node_init"
  by (simp add: node_ok_def Node_init_def)

lemma fresh_entry_alpha_1:
  assumes "fl v = v"
  shows "fadd 0 (fmul (fsub v 0) 1) = v"
  using assms by (simp add: fadd_def fmul_def fsub_def)

lemma map_of_dict_setitem: "map_of (dict_setitem d k v) = (map_of d)(k \<mapsto> v)"
  by (induction d k v rule: dict_setitem.induct) auto

lemma list_all_dict_setitem:
  "list_all P d \<Longrightarrow> P (k, v) \<Longrightarrow> list_all P (dict_setitem d k v)"
  by (induction d k v rule: dict_setitem.induct) auto

lemma knowledge_ok_lookup:
  "knowledge_ok kn \<Longrightarrow> get_node_for_state kn st = Some node \<Longrightarrow> node_ok node"
  by (auto simp: knowledge_ok_def get_node_for_state_def list_all_iff dest!: map_of_SomeD)

lemma node_for_ok: "knowledge_ok kn \<Longrightarrow> node_ok (node_for kn st)"
  by (auto simp: node_for_def Node_init_ok knowledge_ok_lookup split: option.splits)

lemma add_eq:
  "add kn st a v alpha =
   (case update_action (node_for kn st) a v alpha of
      Inl e \<Rightarrow> Inl e
    | Inr node' \<Rightarrow>
        Inr (kn\<lparr>nodes := dict_setitem
               (if map_of (nodes kn) st = None then dict_setitem (nodes kn) st Node_init else nodes kn)
               st node'\<rparr>))"
  by (auto simp: add_def node_for_def get_node_for_state_def Let_def map_of_dict_setitem
      split: option.splits sum.splits)

lemma add_lookup:
  assumes "add kn st a v alpha = Inr kn'"
  shows "\<exists>node'. update_action (node_for kn st) a v alpha = Inr node' \<and>
           get_node_for_state kn' = (get_node_for_state kn)(st \<mapsto> node')"
  using assms
  by (auto simp: add_eq get_node_for_state_def map_of_dict_setitem fun_eq_iff split: sum.splits)

lemma add_knowledge_ok:
  assumes "add kn st a v alpha = Inr kn'" and "knowledge_ok kn"
  shows "knowledge_ok kn'"
proof -
  from assms(1) obtain node' where u: "update_action (node_for kn st) a v alpha = Inr node'"
    and kn': "kn' = kn\<lparr>nodes := dict_setitem
               (if map_of (nodes kn) st = None then dict_setitem (nodes kn) st Node_init else nodes kn)
               st node'\<rparr>"
    by (auto simp: add_eq split: sum.splits)
  have "node_ok node'" using u node_for_ok[OF assms(2)] by (rule update_action_node_ok)
  then show ?thesis
    using assms(2) by (simp add: kn' knowledge_ok_def list_all_dict_setitem Node_init_ok)
qed

lemma add_ok:
  assumes "knowledge_ok kn" and "0 \<le> a" and "a < 4"
  shows "\<exists>kn'. add kn st a v alpha = Inr kn'"
  using update_action_ok[OF node_for_ok[OF assms(1)] assms(2,3)]
  by (simp add: add_eq)

lemma count_of_node_for: "count_of kn st b = (case get_node_for_state kn st of None \<Rightarrow> 0 | Some n \<Rightarrow> action_count n ! b)"
  by (simp add: count_of_def)

lemma count_of_fresh: "b < 4 \<Longrightarrow> count_of kn st b = action_count (node_for kn st) ! b"
  by (simp add: count_of_def node_for_def Node_init_def split: option.splits)

lemma add_count_of:
  assumes "add kn st a v alpha = Inr kn'" and "knowledge_ok kn" and "0 \<le> a" and "a < 4" and "b < 4"
  shows "count_of kn' st' b = count_of kn st' b + (if st' = st \<and> b = nat a then 1 else 0)"
proof -
  from add_lookup[OF assms(1)] obtain node' where
    u: "update_action (node_for kn st) a v alpha = Inr node'" and
    g: "get_node_for_state kn' = (get_node_for_state kn)(st \<mapsto> node')" by blast
  have ok: "node_ok (node_for kn st)" by (rule node_for_ok[OF assms(2)])
  from u update_action_ok[OF ok assms(3,4), of v alpha]
  have c: "action_count node' = (action_count (node_for kn st))[nat a := action_count (node_for kn st) ! nat a + 1]"
    by auto
  show ?thesis
  proof (cases "st' = st")
    case True
    have "count_of kn' st b = action_count node' ! b" by (simp add: count_of_def g)
    also have "\<dots> = action_count (node_for kn st) ! b + (if b = nat a then 1 else 0)"
      using ok assms(5) by (simp add: c node_ok_def nth_list_update)
    finally show ?thesis using True assms(5) by (simp add: count_of_fresh)
  next
    case False
    then show ?thesis by (simp add: count_of_def g)
  qed
qed

lemma adds_knowledge_ok:
  "adds kn calls = Inr kn' \<Longrightarrow> knowledge_ok kn \<Longrightarrow> knowledge_ok kn'"
  by (induction kn calls rule: adds.induct) (auto split: sum.splits dest: add_knowledge_ok)


lemma update_action_count:
  assumes "update_action node a v alpha = Inr node'"
  shows "\<exists>i < length (action_count node).
           action_count node' = (action_count node)[i := action_count node ! i + 1]"
  using assms
  by (auto simp: update_action_def Let_def split: sum.splits dest: py_index_less)

lemma add_count_of_mono:
  assumes "add kn st a v alpha = Inr kn'" and "knowledge_ok kn" and "b < 4"
  shows "count_of kn st' b \<le> count_of kn' st' b"
proof -
  from add_lookup[OF assms(1)] obtain node' where
    u: "update_action (node_for kn st) a v alpha = Inr node'" and
    g: "get_node_for_state kn' = (get_node_for_state kn)(st \<mapsto> node')" by blast
  from update_action_count[OF u] obtain i where i: "i < length (action_count (node_for kn st))"
    and c: "action_count node' = (action_count (node_for kn st))[i := action_count (node_for kn st) ! i + 1]"
    by blast
  show ?thesis
  proof (cases "st' = st")
    case True
    have "count_of kn' st b = action_count node' ! b" by (simp add: count_of_def g)
    also have "\<dots> \<ge> action_count (node_for kn st) ! b"
      using i by (simp add: c nth_list_update)
    finally show ?thesis using True assms(3) by (simp add: count_of_fresh)
  next
    case False
    then show ?thesis by (simp add: count_of_def g)
  qed
qed

lemma adds_count_of_mono:
  "adds kn calls = Inr kn' \<Longrightarrow> knowledge_ok kn \<Longrightarrow> b < 4 \<Longrightarrow> count_of kn st b \<le> count_of kn' st b"
proof (induction kn calls rule: adds.induct)
  case (1 self)
  then show ?case by simp
next
  case (2 self st' action score alpha calls)
  from "2.prems"(1) obtain k1 where a: "add self st' action score alpha = Inr k1"
    and r: "adds k1 calls = Inr kn'" by (auto split: sum.splits)
  have "count_of self st b \<le> count_of k1 st b"
    using a "2.prems"(2,3) by (rule add_count_of_mono)
  also have "\<dots> \<le> count_of kn' st b"
    using a r "2.prems" by (intro "2.IH") (auto dest: add_knowledge_ok)
  finally show ?case .
qed

lemma quality_of_fresh: "b < 4 \<Longrightarrow> quality_of kn st b = action_quality (node_for kn st) ! b"
  by (simp add: quality_of_def node_for_def Node_init_def split: option.splits)

lemma add_quality_of:
  assumes "add kn st a v alpha = Inr kn'" and "knowledge_ok kn" and "0 \<le> a" and "a < 4" and "b < 4"
  shows "quality_of kn' st' b =
         (if st' = st \<and> b = nat a
          then fadd (quality_of kn st b) (fmul (fsub v (quality_of kn st b)) alpha)
          else quality_of kn st' b)"
proof -
  from add_lookup[OF assms(1)] obtain node' where
    u: "update_action (node_for kn st) a v alpha = Inr node'" and
    g: "get_node_for_state kn' = (get_node_for_state kn)(st \<mapsto> node')" by blast
  have ok: "node_ok (node_for kn st)" by (rule node_for_ok[OF assms(2)])
  from u update_action_ok[OF ok assms(3,4), of v alpha]
  have c: "action_quality node' = (action_quality (node_for kn st))
             [nat a := fadd (action_quality (node_for kn st) ! nat a)
                            (fmul (fsub v (action_quality (node_for kn st) ! nat a)) alpha)]"
    by auto
  show ?thesis
  proof (cases "st' = st")
    case True
    have "quality_of kn' st b = action_quality node' ! b" by (simp add: quality_of_def g)
    also have "\<dots> = (if b = nat a then fadd (action_quality (node_for kn st) ! b)
                            (fmul (fsub v (action_quality (node_for kn st) ! b)) alpha)
                        else action_quality (node_for kn st) ! b)"
      using ok assms(5) by (simp add: c node_ok_def nth_list_update)
    finally show ?thesis using True assms(5) by (simp add: quality_of_fresh)
  next
    case False
    then show ?thesis by (simp add: quality_of_def g)
  qed
qed

text \<open>
  C2, with the rounding of the script. For every node, action \<open>a\<close> in \<open>0 \<dots> 3\<close>,
  observed return \<open>v\<close> and step size \<open>alpha\<close>,
  one call of \<^verbatim>\<open>update_action\<close> adds exactly 1 to \<open>action_count[a]\<close> and changes the qualities
  only by \<open>quality[a] += (v - quality[a]) * alpha\<close>, each operation rounded. With
  \<open>alpha = 1.0\<close> a single update of an entry that is still 0.0 sets it exactly to \<open>v\<close>. Each
  \<^verbatim>\<open>Knowledge.add\<close> adds exactly 1 to the count of the state and action it targets and changes
  no other count or quality, and no sequence of calls of \<^verbatim>\<open>add\<close> lowers a count.
\<close>

theorem update_action_rule:
  assumes "node_ok node" and "knowledge_ok kn" and "0 \<le> a" and "a < 4"
  shows "\<exists>node' kn'.
     update_action node a v alpha = Inr node' \<and>
     action_count node' = (action_count node)[nat a := action_count node ! nat a + 1] \<and>
     action_quality node' = (action_quality node)
        [nat a := fadd (action_quality node ! nat a)
                       (fmul (fsub v (action_quality node ! nat a)) alpha)] \<and>
     (alpha = 1 \<and> action_quality node ! nat a = 0 \<and> fl v = v \<longrightarrow> action_quality node' ! nat a = v) \<and>
     add kn st a v alpha = Inr kn' \<and>
     (\<forall>st' b. b < 4 \<longrightarrow>
        count_of kn' st' b = count_of kn st' b + (if st' = st \<and> b = nat a then 1 else 0) \<and>
        quality_of kn' st' b =
          (if st' = st \<and> b = nat a
           then fadd (quality_of kn st b) (fmul (fsub v (quality_of kn st b)) alpha)
           else quality_of kn st' b)) \<and>
     (\<forall>calls kn'' st' b. adds kn calls = Inr kn'' \<and> b < 4 \<longrightarrow> count_of kn st' b \<le> count_of kn'' st' b)"
proof -
  let ?q = "action_quality node ! nat a"
  let ?node' = "\<lparr>action_quality = (action_quality node)[nat a := fadd ?q (fmul (fsub v ?q) alpha)],
                 action_count = (action_count node)[nat a := action_count node ! nat a + 1]\<rparr>"
  have u: "update_action node a v alpha = Inr ?node'"
    using assms(1,3,4) by (rule update_action_ok)
  have len: "nat a < length (action_quality node)"
    using assms(1,3,4) by (simp add: node_ok_def)
  have one: "alpha = 1 \<and> ?q = 0 \<and> fl v = v \<longrightarrow> action_quality ?node' ! nat a = v"
    using len by (auto simp: fresh_entry_alpha_1)
  from add_ok[OF assms(2,3,4)] obtain kn' where a: "add kn st a v alpha = Inr kn'" by blast
  have cq: "\<forall>st' b. b < 4 \<longrightarrow>
        count_of kn' st' b = count_of kn st' b + (if st' = st \<and> b = nat a then 1 else 0) \<and>
        quality_of kn' st' b =
          (if st' = st \<and> b = nat a
           then fadd (quality_of kn st b) (fmul (fsub v (quality_of kn st b)) alpha)
           else quality_of kn st' b)"
    using add_count_of[OF a assms(2,3,4)] add_quality_of[OF a assms(2,3,4)] by blast
  have mono: "\<forall>calls kn'' st' b. adds kn calls = Inr kn'' \<and> b < 4 \<longrightarrow> count_of kn st' b \<le> count_of kn'' st' b"
    using adds_count_of_mono[OF _ assms(2)] by blast
  show ?thesis
    apply (rule exI[of _ ?node'])
    apply (rule exI[of _ kn'])
    using u one a cq mono by simp
qed

lemma fl_three_quarters: "fl (3 / 4) = 3 / 4"
  by code_simp

text \<open>C2, at a new node and the empty knowledge: action 2, return 0.75, step size 1.\<close>

theorem update_action_rule_witness:
  "node_ok Node_init \<and> knowledge_ok Knowledge_init \<and> (0::int) \<le> 2 \<and> (2::int) < 4 \<and>
   (\<exists>node' kn'. update_action Node_init 2 (3 / 4) 1 = Inr node' \<and>
      action_quality node' ! 2 = 3 / 4 \<and>
      add Knowledge_init [2, 0] 2 (3 / 4) 1 = Inr kn' \<and>
      count_of kn' [2, 0] 2 = count_of Knowledge_init [2, 0] 2 + 1)"
proof -
  have h1: "node_ok Node_init" by (rule Node_init_ok)
  have h2: "knowledge_ok Knowledge_init" by (simp add: knowledge_ok_def Knowledge_init_def)
  have h3: "(0::int) \<le> 2" and h4: "(2::int) < 4" by simp_all
  have h5: "(1::rat) = 1 \<and> action_quality Node_init ! nat 2 = 0 \<and> fl (3 / 4) = 3 / 4"
    by (simp add: Node_init_def fl_three_quarters)
  from update_action_rule[OF h1 h2 h3 h4, of "3 / 4" 1 "[2, 0]"]
  obtain node' kn' where
    u: "update_action Node_init 2 (3 / 4) 1 = Inr node'" and
    o: "(1::rat) = 1 \<and> action_quality Node_init ! nat 2 = 0 \<and> fl (3 / 4) = 3 / 4
        \<longrightarrow> action_quality node' ! nat 2 = 3 / 4" and
    a: "add Knowledge_init [2, 0] 2 (3 / 4) 1 = Inr kn'" and
    c: "\<forall>st' b. b < 4 \<longrightarrow>
        count_of kn' st' b = count_of Knowledge_init st' b + (if st' = [2, 0] \<and> b = nat 2 then 1 else 0) \<and>
        quality_of kn' st' b =
          (if st' = [2, 0] \<and> b = nat 2
           then fadd (quality_of Knowledge_init [2, 0] b) (fmul (fsub (3 / 4) (quality_of Knowledge_init [2, 0] b)) 1)
           else quality_of Knowledge_init st' b)"
    by blast
  from o h5 have q: "action_quality node' ! 2 = 3 / 4" by simp
  from c have "count_of kn' [2, 0] 2 = count_of Knowledge_init [2, 0] 2 + 1" by simp
  with h1 h2 u q a show ?thesis by simp
qed

text \<open>
  C2 as stated says that with \<open>alpha = 1.0\<close> a single update sets the quality exactly to
  \<open>v\<close>. On an entry that holds 1.0 the update computes \<open>1.0 + (v - 1.0) * 1.0\<close> in binary64:
  for \<open>v = 2 powi - 60\<close> the difference rounds to \<open>- 1.0\<close> and the entry becomes 0.0; for
  \<open>v = 0.1\<close> it becomes 0.09999999999999998.
\<close>

theorem update_action_alpha_1_counterexample:
  "fl (1 / 2 ^ 60) = 1 / 2 ^ 60 \<and>
   update_action warm_node 0 (1 / 2 ^ 60) 1 =
     Inr \<lparr>action_quality = [0, 0, 0, 0], action_count = [2, 0, 0, 0]\<rparr> \<and>
   update_action warm_node 0 (fl (1 / 10)) 1 =
     Inr \<lparr>action_quality = [900719925474099 / 9007199254740992, 0, 0, 0],
          action_count = [2, 0, 0, 0]\<rparr> \<and>
   fl (1 / 10) = 3602879701896397 / 36028797018963968 \<and>
   (0 :: rat) \<noteq> 1 / 2 ^ 60 \<and>
   (900719925474099 / 9007199254740992 :: rat) \<noteq> 3602879701896397 / 36028797018963968"
  by code_simp

lemma adds_unknown:
  "adds kn calls = Inr kn' \<Longrightarrow> get_node_for_state kn st = None \<Longrightarrow> st \<notin> fst ` set calls \<Longrightarrow>
   get_node_for_state kn' st = None"
proof (induction kn calls rule: adds.induct)
  case (1 self)
  then show ?case by simp
next
  case (2 self st' action score alpha calls)
  from "2.prems"(1) obtain k1 where a: "add self st' action score alpha = Inr k1"
    and r: "adds k1 calls = Inr kn'" by (auto split: sum.splits)
  from add_lookup[OF a] "2.prems"(2,3) have "get_node_for_state k1 st = None" by auto
  with a r "2.prems"(3) show ?case by (intro "2.IH") auto
qed

lemma get_estimate_unknown:
  "get_node_for_state kn st = None \<Longrightarrow> Knowledge_get_estimate kn st a = Inr 0"
  by (simp add: Knowledge_get_estimate_def)

lemma Node_init_estimate: "0 \<le> b \<Longrightarrow> b < 4 \<Longrightarrow> Node_get_estimate Node_init b = Inr 0"
  by (simp add: Node_get_estimate_def py_getitem_def py_index_in_range Node_init_def)

text \<open>
  C4. For a state that no call of \<^verbatim>\<open>add\<close> has named,
  \<^verbatim>\<open>Knowledge.get_estimate\<close> returns 0.0
  for every action, and for the four actions this is the estimate of a newly made node, whose
  qualities are all 0.0.
\<close>

theorem get_estimate_default:
  assumes "adds Knowledge_init calls = Inr kn" and "st \<notin> fst ` set calls"
  shows "Knowledge_get_estimate kn st a = Inr 0 \<and>
         action_quality Node_init = [0, 0, 0, 0] \<and>
         (\<forall>b\<in>{0..3}. Knowledge_get_estimate kn st b = Node_get_estimate Node_init b)"
proof -
  have "get_node_for_state Knowledge_init st = None"
    by (simp add: get_node_for_state_def Knowledge_init_def)
  with assms(1) have "get_node_for_state kn st = None" using assms(2) by (rule adds_unknown)
  then have k: "Knowledge_get_estimate kn st b = Inr 0" for b by (rule get_estimate_unknown)
  have q: "action_quality Node_init = [0, 0, 0, 0]"
    by (simp add: Node_init_def eval_nat_numeral)
  have n: "Knowledge_get_estimate kn st b = Node_get_estimate Node_init b" if "b \<in> {0..3}" for b
  proof -
    from that have "0 \<le> b" "b < 4" by simp_all
    then show ?thesis by (simp only: k Node_init_estimate)
  qed
  from k[of a] q n show ?thesis by blast
qed

lemma Node_init_lists:
  "Node_init = \<lparr>action_quality = [0, 0, 0, 0], action_count = [0, 0, 0, 0]\<rparr>"
  by (simp add: Node_init_def eval_nat_numeral)

lemma one_state_built: "adds Knowledge_init [([2, 0], 0, 3 / 4, 1)] = Inr one_state"
  apply (simp add: add_def Knowledge_init_def one_state_def)
  apply (simp add: Node_init_lists)
  apply (simp add: update_action_def py_index_def fresh_entry_alpha_1 fl_three_quarters)
  done

text \<open>C4, after one call of \<^verbatim>\<open>add\<close> for another state.\<close>

theorem get_estimate_default_witness:
  "adds Knowledge_init [([2, 0], 0, 3 / 4, 1)] = Inr one_state \<and>
   ([4, 4] :: state) \<notin> fst ` set [([2, 0], 0 :: int, 3 / 4 :: rat, 1 :: rat)] \<and>
   Knowledge_get_estimate one_state [4, 4] 2 = Inr 0 \<and>
   Knowledge_get_estimate one_state [4, 4] 2 = Node_get_estimate Node_init 2"
proof -
  have h: "([4, 4] :: state) \<notin> fst ` set [([2, 0], 0 :: int, 3 / 4 :: rat, 1 :: rat)]"
    by simp
  note t = get_estimate_default[OF one_state_built h, of 2]
  from t have a: "Knowledge_get_estimate one_state [4, 4] 2 = Inr 0" by blast
  from t have "\<forall>b\<in>{0..3}. Knowledge_get_estimate one_state [4, 4] b = Node_get_estimate Node_init b"
    by blast
  then have b: "Knowledge_get_estimate one_state [4, 4] 2 = Node_get_estimate Node_init 2"
    by (rule bspec) simp
  show ?thesis using one_state_built h a b by blast
qed

text \<open>
  C10, with every index outside \<open>0 \<dots> 3\<close>. The value 0.0 is returned only for a
  state without a node. For a state with a
  node, an action of 4 or more raises \<^verbatim>\<open>IndexError\<close>, an action from \<open>- 4\<close> to \<open>- 1\<close> returns
  the quality counted from the end of the four, and an action below \<open>- 4\<close> raises
  \<^verbatim>\<open>IndexError\<close> as well.
\<close>

theorem get_estimate_out_of_range:
  assumes "get_node_for_state kn st = Some node" and "node_ok node"
  shows "(4 \<le> a \<longrightarrow> Knowledge_get_estimate kn st a = Inl IndexError) \<and>
         (a < - 4 \<longrightarrow> Knowledge_get_estimate kn st a = Inl IndexError) \<and>
         (- 4 \<le> a \<and> a < 0 \<longrightarrow>
            Knowledge_get_estimate kn st a = Inr (action_quality node ! nat (4 + a))) \<and>
         (0 \<le> a \<and> a < 4 \<longrightarrow> Knowledge_get_estimate kn st a = Inr (action_quality node ! nat a)) \<and>
         (\<forall>st'. get_node_for_state kn st' = None \<longrightarrow> Knowledge_get_estimate kn st' a = Inr 0)"
  using assms
  by (auto simp: Knowledge_get_estimate_def Node_get_estimate_def py_getitem_def py_index_def node_ok_def)

text \<open>C10, on a knowledge of two states.\<close>

theorem get_estimate_out_of_range_witness:
  "get_node_for_state two_states [2, 0] =
     Some \<lparr>action_quality = [3 / 4, 0, 0, 1 / 4], action_count = [1, 0, 0, 1]\<rparr> \<and>
   node_ok \<lparr>action_quality = [3 / 4, 0, 0, 1 / 4], action_count = [1, 0, 0, 1]\<rparr> \<and>
   Knowledge_get_estimate two_states [2, 0] 4 = Inl IndexError \<and>
   Knowledge_get_estimate two_states [2, 0] (- 5) = Inl IndexError \<and>
   Knowledge_get_estimate two_states [2, 0] (- 1) = Inr (1 / 4) \<and>
   Knowledge_get_estimate two_states [2, 0] 0 = Inr (3 / 4) \<and>
   get_node_for_state two_states [4, 4] = None \<and>
   Knowledge_get_estimate two_states [4, 4] 7 = Inr 0"
proof -
  let ?n = "\<lparr>action_quality = [3 / 4, 0, 0, 1 / 4], action_count = [1, 0, 0, 1]\<rparr>"
  have h1: "get_node_for_state two_states [2, 0] = Some ?n"
    by (simp add: get_node_for_state_def two_states_def)
  have h2: "node_ok ?n" by (simp add: node_ok_def)
  have h3: "get_node_for_state two_states [4, 4] = None"
    by (simp add: get_node_for_state_def two_states_def)
  from get_estimate_out_of_range[OF h1 h2, of 4] get_estimate_out_of_range[OF h1 h2, of "- 5"]
    get_estimate_out_of_range[OF h1 h2, of "- 1"] get_estimate_out_of_range[OF h1 h2, of 0]
    get_estimate_out_of_range[OF h1 h2, of 7] h1 h2 h3
  show ?thesis by simp
qed

text \<open>
  C10 as stated says that a negative action returns an entry from the end. The action
  \<open>- 5\<close> on a known state raises \<^verbatim>\<open>IndexError\<close>.
\<close>

theorem get_estimate_negative_counterexample:
  "get_node_for_state two_states [2, 0] \<noteq> None \<and>
   Knowledge_get_estimate two_states [2, 0] (- 5) = Inl IndexError"
  by (simp add: Knowledge_get_estimate_def Node_get_estimate_def py_getitem_def py_index_def
      get_node_for_state_def two_states_def)

section \<open>The best action\<close>

lemma py_max_Max:
  assumes "xs \<noteq> []"
  shows "py_max xs = Inr (Max (set xs))"
proof (cases xs)
  case Nil
  with assms show ?thesis by simp
next
  case (Cons x rest)
  have "Max (set (x # rest)) = fold max rest x" by (rule Max.set_eq_fold)
  then show ?thesis by (simp add: py_max_def Cons del: set_simps)
qed

lemma enumerate_nth: "enumerate 0 xs = map (\<lambda>i. (i, xs ! i)) [0..<length xs]"
  by (rule nth_equalityI) (simp_all add: nth_enumerate_eq)

lemma joint_best_actions_eq:
  "joint_best_actions self m =
   map int (filter (\<lambda>i. action_quality self ! i = m) [0..<length (action_quality self)])"
  by (simp add: joint_best_actions_def enumerate_nth filter_map comp_def)

lemma joint_best_actions_distinct: "distinct (joint_best_actions self m)"
  by (simp add: joint_best_actions_eq distinct_map inj_on_def)

lemma joint_best_actions_set:
  assumes "node_ok self"
  shows "set (joint_best_actions self (Max (set (action_quality self)))) = maximal_actions self"
proof -
  let ?q = "action_quality self"
  have len: "length ?q = 4" using assms by (simp add: node_ok_def)
  have setq: "set ?q = {?q ! i |i. i < 4}" using len by (auto simp: set_conv_nth)
  have ne: "?q \<noteq> []" using len by auto
  have max_iff: "?q ! i = Max (set ?q) \<longleftrightarrow> (\<forall>j<4. ?q ! j \<le> ?q ! i)" if "i < 4" for i
  proof
    assume "?q ! i = Max (set ?q)"
    then show "\<forall>j<4. ?q ! j \<le> ?q ! i" using len by (auto intro: Max_ge)
  next
    assume a: "\<forall>j<4. ?q ! j \<le> ?q ! i"
    show "?q ! i = Max (set ?q)"
    proof (rule sym, rule Max_eqI)
      show "finite (set ?q)" by simp
      show "\<And>y. y \<in> set ?q \<Longrightarrow> y \<le> ?q ! i" using a by (auto simp: setq)
      show "?q ! i \<in> set ?q" using that len by simp
    qed
  qed
  have ball: "(\<forall>b\<in>{0..3::int}. ?q ! nat b \<le> x) \<longleftrightarrow> (\<forall>j<4. ?q ! j \<le> x)" for x
  proof
    assume l: "\<forall>b\<in>{0..3::int}. ?q ! nat b \<le> x"
    show "\<forall>j<4. ?q ! j \<le> x"
    proof (intro allI impI)
      fix j :: nat assume "j < 4"
      then have "int j \<in> {0..3}" by simp
      with l have "?q ! nat (int j) \<le> x" by blast
      then show "?q ! j \<le> x" by simp
    qed
  next
    assume "\<forall>j<4. ?q ! j \<le> x"
    then show "\<forall>b\<in>{0..3::int}. ?q ! nat b \<le> x" by auto
  qed
  show ?thesis
  proof (intro set_eqI iffI)
    fix a assume "a \<in> set (joint_best_actions self (Max (set ?q)))"
    then obtain i where i: "i < 4" "a = int i" "?q ! i = Max (set ?q)"
      using len by (auto simp: joint_best_actions_eq)
    then show "a \<in> maximal_actions self"
      using max_iff[of i] by (simp add: maximal_actions_def ball)
  next
    fix a assume "a \<in> maximal_actions self"
    then have a: "0 \<le> a" "a < 4" "\<forall>j<4. ?q ! j \<le> ?q ! nat a"
      by (simp_all add: maximal_actions_def ball)
    then have "?q ! nat a = Max (set ?q)" using max_iff[of "nat a"] by simp
    then show "a \<in> set (joint_best_actions self (Max (set ?q)))"
      using a len by (auto simp: joint_best_actions_eq intro!: image_eqI[where x = "nat a"])
  qed
qed

lemma joint_best_actions_nonempty:
  assumes "node_ok self"
  shows "joint_best_actions self (Max (set (action_quality self))) \<noteq> []"
proof -
  have "action_quality self \<noteq> []" using assms by (auto simp: node_ok_def)
  then have "Max (set (action_quality self)) \<in> set (action_quality self)" by simp
  then obtain i where "i < length (action_quality self)"
    "action_quality self ! i = Max (set (action_quality self))"
    by (auto simp: in_set_conv_nth)
  then have "int i \<in> set (joint_best_actions self (Max (set (action_quality self))))"
    by (simp add: joint_best_actions_eq)
  then show ?thesis by auto
qed

lemma best_action_eq:
  assumes "node_ok self"
  shows "best_action self pos =
         random_choice (joint_best_actions self (Max (set (action_quality self)))) pos"
proof -
  have "action_quality self \<noteq> []" using assms by (auto simp: node_ok_def)
  then show ?thesis by (simp add: best_action_def py_max_Max)
qed

lemma count_positions:
  "distinct xs \<Longrightarrow>
   length (filter (\<lambda>pos. random_choice xs pos = Inr a) [0..<length xs]) = (if a \<in> set xs then 1 else 0)"
proof -
  assume d: "distinct xs"
  have "filter (\<lambda>pos. random_choice xs pos = Inr a) [0..<length xs] =
        filter (\<lambda>pos. xs ! pos = a) [0..<length xs]"
    by (rule filter_cong) (simp_all add: random_choice_def)
  also have "length \<dots> = length (filter (\<lambda>x. x = a) (map (nth xs) [0..<length xs]))"
    by (simp add: filter_map comp_def)
  also have "\<dots> = length (filter (\<lambda>x. x = a) xs)" by (simp add: map_nth)
  also have "\<dots> = (if a \<in> set xs then 1 else 0)"
    using d by (induction xs) auto
  finally show ?thesis .
qed


lemma maximal_actions_card:
  assumes "node_ok self"
  shows "card (maximal_actions self) =
         length (joint_best_actions self (Max (set (action_quality self))))"
  using joint_best_actions_set[OF assms] distinct_card[OF joint_best_actions_distinct]
  by metis

lemma best_action_prob_eq:
  assumes "node_ok self"
  shows "best_action_prob self a =
         (if a \<in> maximal_actions self then 1 / of_nat (card (maximal_actions self)) else 0)"
proof -
  let ?J = "joint_best_actions self (Max (set (action_quality self)))"
  have ne: "action_quality self \<noteq> []" using assms by (auto simp: node_ok_def)
  have "best_action_prob self a =
        of_nat (length (filter (\<lambda>pos. best_action self pos = Inr a) [0..<length ?J])) / of_nat (length ?J)"
    by (simp add: best_action_prob_def py_max_Max[OF ne] Let_def)
  also have "(\<lambda>pos. best_action self pos = Inr a) = (\<lambda>pos. random_choice ?J pos = Inr a)"
    by (simp add: best_action_eq[OF assms])
  also have "length (filter (\<lambda>pos. random_choice ?J pos = Inr a) [0..<length ?J]) =
             (if a \<in> set ?J then 1 else 0)"
    by (rule count_positions[OF joint_best_actions_distinct])
  finally show ?thesis
    by (simp add: joint_best_actions_set[OF assms] maximal_actions_card[OF assms])
qed

text \<open>
  C5. For every node, \<^verbatim>\<open>best_action\<close> returns an action whose quality is
  maximal among the
  four entries. The positions \<^verbatim>\<open>random.choice\<close> can draw are as many as the maximal actions and
  each maximal action is returned at exactly one of them, so with a uniform draw every maximal
  action has probability one over their number and every other action probability 0; when
  the four qualities are equal, each action has probability 1/4.
\<close>

theorem best_action_uniform:
  assumes "node_ok node"
  shows "maximal_actions node \<noteq> {} \<and>
         (\<forall>pos a. best_action node pos = Inr a \<longrightarrow> a \<in> maximal_actions node) \<and>
         (\<forall>pos < card (maximal_actions node). \<exists>a. best_action node pos = Inr a) \<and>
         (\<forall>a \<in> maximal_actions node.
            best_action_prob node a = 1 / of_nat (card (maximal_actions node))) \<and>
         (\<forall>a. a \<notin> maximal_actions node \<longrightarrow> best_action_prob node a = 0) \<and>
         ((\<forall>b\<in>{0..3}. action_quality node ! nat b = action_quality node ! 0) \<longrightarrow>
            (\<forall>a\<in>{0..3}. best_action_prob node a = 1 / 4))"
proof -
  let ?J = "joint_best_actions node (Max (set (action_quality node)))"
  have s: "set ?J = maximal_actions node" by (rule joint_best_actions_set[OF assms])
  have c: "card (maximal_actions node) = length ?J" by (rule maximal_actions_card[OF assms])
  have 1: "maximal_actions node \<noteq> {}"
    using joint_best_actions_nonempty[OF assms] s by auto
  have 2: "\<forall>pos a. best_action node pos = Inr a \<longrightarrow> a \<in> maximal_actions node"
  proof (intro allI impI)
    fix pos a assume "best_action node pos = Inr a"
    then have "random_choice ?J pos = Inr a" by (simp only: best_action_eq[OF assms])
    then have "pos < length ?J" and "a = ?J ! pos"
      by (simp_all add: random_choice_def split: if_splits)
    then have "a \<in> set ?J" by simp
    then show "a \<in> maximal_actions node" by (simp only: s)
  qed
  have 3: "\<forall>pos < card (maximal_actions node). \<exists>a. best_action node pos = Inr a"
    by (simp add: best_action_eq[OF assms] random_choice_def c)
  have 4: "\<forall>a \<in> maximal_actions node.
            best_action_prob node a = 1 / of_nat (card (maximal_actions node))"
    by (simp add: best_action_prob_eq[OF assms])
  have 5: "\<forall>a. a \<notin> maximal_actions node \<longrightarrow> best_action_prob node a = 0"
    by (simp add: best_action_prob_eq[OF assms])
  have 6: "(\<forall>b\<in>{0..3}. action_quality node ! nat b = action_quality node ! 0) \<longrightarrow>
            (\<forall>a\<in>{0..3}. best_action_prob node a = 1 / 4)"
  proof
    assume eq: "\<forall>b\<in>{0..3}. action_quality node ! nat b = action_quality node ! 0"
    have "maximal_actions node = {0..3}"
    proof (intro set_eqI iffI)
      fix a assume "a \<in> maximal_actions node"
      then show "a \<in> {0..3}" by (simp add: maximal_actions_def)
    next
      fix a :: int assume a: "a \<in> {0..3}"
      have "action_quality node ! nat b \<le> action_quality node ! nat a" if "b \<in> {0..3}" for b
        using eq a that by (metis order_refl)
      with a show "a \<in> maximal_actions node" by (simp add: maximal_actions_def)
    qed
    then show "\<forall>a\<in>{0..3}. best_action_prob node a = 1 / 4"
      by (simp add: best_action_prob_eq[OF assms])
  qed
  show ?thesis
    by (intro conjI) (rule 1, rule 2, rule 3, rule 4, rule 5, rule 6)
qed

lemma tied_node_maximal: "maximal_actions tied_node = {0, 2}"
proof -
  have r: "{0..3::int} = {0, 1, 2, 3}" by auto
  show ?thesis
    unfolding maximal_actions_def r by (auto simp: tied_node_def)
qed

text \<open>C5, on a node where actions 0 and 2 tie, and on a new node.\<close>

theorem best_action_uniform_witness:
  "node_ok tied_node \<and> node_ok Node_init \<and>
   maximal_actions tied_node = {0, 2} \<and>
   best_action_prob tied_node 0 = 1 / 2 \<and>
   best_action_prob tied_node 2 = 1 / 2 \<and>
   best_action_prob tied_node 1 = 0 \<and>
   best_action_prob tied_node 3 = 0 \<and>
   action_quality Node_init = [0, 0, 0, 0] \<and>
   best_action_prob Node_init 0 = 1 / 4 \<and>
   best_action_prob Node_init 1 = 1 / 4 \<and>
   best_action_prob Node_init 2 = 1 / 4 \<and>
   best_action_prob Node_init 3 = 1 / 4"
proof -
  have h1: "node_ok tied_node" by (simp add: node_ok_def tied_node_def)
  have h2: "node_ok Node_init" by (rule Node_init_ok)
  have h3: "\<forall>b\<in>{0..3}. action_quality Node_init ! nat b = action_quality Node_init ! 0"
    by (auto simp: Node_init_def nat_less_iff)
  have h4: "action_quality Node_init = [0, 0, 0, 0]"
    by (simp add: Node_init_lists)
  note t = best_action_uniform[OF h1]
  note i = best_action_uniform[OF h2]
  from t have a: "\<forall>a \<in> maximal_actions tied_node.
            best_action_prob tied_node a = 1 / of_nat (card (maximal_actions tied_node))" by blast
  from t have b: "\<forall>a. a \<notin> maximal_actions tied_node \<longrightarrow> best_action_prob tied_node a = 0" by blast
  from i h3 have c: "\<forall>a\<in>{0..3}. best_action_prob Node_init a = 1 / 4" by blast
  from a b have d: "best_action_prob tied_node 0 = 1 / 2" "best_action_prob tied_node 2 = 1 / 2"
    "best_action_prob tied_node 1 = 0" "best_action_prob tied_node 3 = 0"
    by (simp_all add: tied_node_maximal)
  from c have e: "best_action_prob Node_init 0 = 1 / 4" "best_action_prob Node_init 1 = 1 / 4"
    "best_action_prob Node_init 2 = 1 / 4" "best_action_prob Node_init 3 = 1 / 4"
    by simp_all
  from h1 h2 h4 d e tied_node_maximal show ?thesis by blast
qed

section \<open>The listing of the most visited states\<close>

lemma dump_loop_take:
  "limit \<noteq> 0 \<Longrightarrow> count \<le> limit \<Longrightarrow> dump_loop items limit count = take (nat (limit - count) + 1) items"
proof (induction items limit count rule: dump_loop.induct)
  case (1 limit count)
  then show ?case by simp
next
  case (2 n nod rest limit count)
  show ?case
  proof (cases "count + 1 > limit")
    case True
    with "2.prems" have "count = limit" by simp
    with "2.prems" show ?thesis by simp
  next
    case False
    then have "nat (limit - count) = Suc (nat (limit - (count + 1)))" by simp
    with False "2.IH" "2.prems" show ?thesis by simp
  qed
qed

lemma dump_loop_unlimited: "dump_loop items 0 count = items"
  by (induction items "0::int" count rule: dump_loop.induct) simp_all

lemma sorted_reverse_set: "set (sorted_reverse f xs) = set xs"
  by (simp add: sorted_reverse_def)

lemma sorted_reverse_length: "length (sorted_reverse f xs) = length xs"
  by (simp add: sorted_reverse_def)

lemma sorted_reverse_sorted: "sorted (rev (map f (sorted_reverse f xs)))"
  by (simp add: sorted_reverse_def rev_map[symmetric])

lemma dump_positive:
  assumes "0 < limit"
  shows "dump kn limit = take (nat limit + 1) (sorted_reverse (\<lambda>x. visited (snd x)) (nodes kn))"
    and "length (dump kn limit) = min (Knowledge_size kn) (nat limit + 1)"
  using assms by (simp_all add: dump_def dump_loop_take sorted_reverse_length Knowledge_size_def)

lemma dump_too_long:
  assumes "0 < limit" and "nat limit < Knowledge_size kn"
  shows "length (dump kn limit) = nat limit + 1"
  using assms by (simp add: dump_positive(2))

text \<open>
  C6. \<^verbatim>\<open>dump(L)\<close> should list the \<open>L\<close> most visited states
  and no more. The loop compares
  the count with the limit after printing and with \<^verbatim>\<open>>\<close>, so it stops one line late: on a
  knowledge of two states \<^verbatim>\<open>dump(1)\<close> lists both.
\<close>

theorem dump_one_too_many:
  "Knowledge_size two_states = 2 \<and>
   dump two_states 1 =
     [([2, 0], \<lparr>action_quality = [3 / 4, 0, 0, 1 / 4], action_count = [1, 0, 0, 1]\<rparr>),
      ([0, 2], \<lparr>action_quality = [0, 1 / 2, 0, 0], action_count = [0, 1, 0, 0]\<rparr>)] \<and>
   length (dump two_states 1) = 2"
  by (simp add: dump_def two_states_def sorted_reverse_def visited_def Knowledge_size_def)

section \<open>The choice of the action\<close>

lemma world_ok_sample: "world_ok W \<Longrightarrow> 0 \<le> fst (env_sample W w) \<and> fst (env_sample W w) < 4"
  by (simp add: world_ok_def)

lemma world_ok_position: "world_ok W \<Longrightarrow> 0 < n \<Longrightarrow> fst (random_position W n w) < n"
  by (simp add: world_ok_def)

lemma maximal_actions_range: "a \<in> maximal_actions node \<Longrightarrow> 0 \<le> a \<and> a < 4"
  by (simp add: maximal_actions_def)

text \<open>The two branches of the choice.\<close>

lemma select_action_unfold:
  "select_action W epsilon s =
     (if epsilon < fst (random_uniform W (world s)) then
        (case get_node_for_state (knowledge s) (observation s) of
           Some state_node \<Rightarrow>
             (case py_max (action_quality state_node) of
                Inl e \<Rightarrow> Inl e
              | Inr max_quality \<Rightarrow>
                 (case best_action state_node
                         (fst (random_position W (length (joint_best_actions state_node max_quality))
                                 (snd (random_uniform W (world s))))) of
                    Inl e \<Rightarrow> Inl e
                  | Inr action \<Rightarrow>
                      Inr (action, s\<lparr>best_actions_used := best_actions_used s + 1,
                                     world := snd (random_position W (length (joint_best_actions state_node max_quality))
                                 (snd (random_uniform W (world s))))\<rparr>)))
         | None \<Rightarrow>
             Inr (fst (env_sample W (snd (random_uniform W (world s)))),
                  s\<lparr>world := snd (env_sample W (snd (random_uniform W (world s))))\<rparr>))
      else Inr (fst (env_sample W (snd (random_uniform W (world s)))),
                s\<lparr>world := snd (env_sample W (snd (random_uniform W (world s))))\<rparr>))"
  unfolding select_action_def case_prod_beta by (rule refl)

lemma select_action_explore:
  assumes "\<not> (epsilon < fst (random_uniform W (world s)) \<and>
              get_node_for_state (knowledge s) (observation s) \<noteq> None)"
  shows "select_action W epsilon s =
         Inr (fst (env_sample W (snd (random_uniform W (world s)))),
              s\<lparr>world := snd (env_sample W (snd (random_uniform W (world s))))\<rparr>)"
proof (cases "epsilon < fst (random_uniform W (world s))")
  case True
  with assms have "get_node_for_state (knowledge s) (observation s) = None" by simp
  with True show ?thesis by (simp only: select_action_unfold if_True option.case)
next
  case False
  then show ?thesis by (simp only: select_action_unfold if_False)
qed

lemma select_action_exploit:
  assumes "epsilon < fst (random_uniform W (world s))"
    and "get_node_for_state (knowledge s) (observation s) = Some node"
    and "node_ok node" and "world_ok W"
  shows "\<exists>a. best_action node
                (fst (random_position W (card (maximal_actions node)) (snd (random_uniform W (world s))))) = Inr a \<and>
             a \<in> maximal_actions node \<and>
             select_action W epsilon s =
               Inr (a, s\<lparr>best_actions_used := best_actions_used s + 1,
                         world := snd (random_position W (card (maximal_actions node))
                                         (snd (random_uniform W (world s))))\<rparr>)"
proof -
  let ?w1 = "snd (random_uniform W (world s))"
  let ?J = "joint_best_actions node (Max (set (action_quality node)))"
  let ?m = "card (maximal_actions node)"
  let ?pos = "fst (random_position W ?m ?w1)"
  have ne: "action_quality node \<noteq> []" using assms(3) by (auto simp: node_ok_def)
  have mx: "py_max (action_quality node) = Inr (Max (set (action_quality node)))"
    by (rule py_max_Max[OF ne])
  have c: "length ?J = ?m"
    by (rule maximal_actions_card[OF assms(3), symmetric])
  have "0 < ?m"
    using joint_best_actions_nonempty[OF assms(3)] by (simp add: c[symmetric])
  then have pos: "?pos < length ?J" unfolding c by (rule world_ok_position[OF assms(4)])
  have a: "best_action node ?pos = Inr (?J ! ?pos)"
    using pos by (simp only: best_action_eq[OF assms(3)] random_choice_def if_True)
  have "?J ! ?pos \<in> set ?J" using pos by (rule nth_mem)
  then have m: "?J ! ?pos \<in> maximal_actions node"
    by (simp only: joint_best_actions_set[OF assms(3)])
  have "select_action W epsilon s =
        Inr (?J ! ?pos, s\<lparr>best_actions_used := best_actions_used s + 1,
                             world := snd (random_position W ?m ?w1)\<rparr>)"
    by (simp only: select_action_unfold assms(1) assms(2) if_True option.case mx sum.case c a)
  with a m show ?thesis by blast
qed

text \<open>
  C3. At every decision the script draws \<open>r\<close> with
  \<^verbatim>\<open>random.uniform(0, 1)\<close>. If \<open>r > epsilon\<close> and
  the current state has a node, the action is that node's \<^verbatim>\<open>best_action()\<close> (and
  \<^verbatim>\<open>best_actions_used\<close> grows by 1); in every other case it is the action
  \<^verbatim>\<open>env.action_space.sample()\<close> returns and the counter stays. A state without a node gets the
  sampled action whatever \<open>epsilon\<close> is.
\<close>

theorem select_action_policy:
  assumes "knowledge_ok (knowledge s)" and "world_ok W"
  shows "(\<forall>node. epsilon < fst (random_uniform W (world s)) \<and>
            get_node_for_state (knowledge s) (observation s) = Some node \<longrightarrow>
            (\<exists>a. best_action node
                    (fst (random_position W (card (maximal_actions node))
                            (snd (random_uniform W (world s))))) = Inr a \<and>
                 a \<in> maximal_actions node \<and>
                 select_action W epsilon s =
                   Inr (a, s\<lparr>best_actions_used := best_actions_used s + 1,
                             world := snd (random_position W (card (maximal_actions node))
                                             (snd (random_uniform W (world s))))\<rparr>))) \<and>
         (\<not> (epsilon < fst (random_uniform W (world s)) \<and>
             get_node_for_state (knowledge s) (observation s) \<noteq> None) \<longrightarrow>
            select_action W epsilon s =
              Inr (fst (env_sample W (snd (random_uniform W (world s)))),
                   s\<lparr>world := snd (env_sample W (snd (random_uniform W (world s))))\<rparr>)) \<and>
         (get_node_for_state (knowledge s) (observation s) = None \<longrightarrow>
            (\<forall>e. select_action W e s =
              Inr (fst (env_sample W (snd (random_uniform W (world s)))),
                   s\<lparr>world := snd (env_sample W (snd (random_uniform W (world s))))\<rparr>)))"
proof (intro conjI allI impI)
  fix node
  assume a: "epsilon < fst (random_uniform W (world s)) \<and>
             get_node_for_state (knowledge s) (observation s) = Some node"
  then have "node_ok node" using assms(1) by (auto intro: knowledge_ok_lookup)
  with a assms(2) show "\<exists>a. best_action node
                    (fst (random_position W (card (maximal_actions node))
                            (snd (random_uniform W (world s))))) = Inr a \<and>
                 a \<in> maximal_actions node \<and>
                 select_action W epsilon s =
                   Inr (a, s\<lparr>best_actions_used := best_actions_used s + 1,
                             world := snd (random_position W (card (maximal_actions node))
                                             (snd (random_uniform W (world s))))\<rparr>)"
    by (intro select_action_exploit) simp_all
next
  assume "\<not> (epsilon < fst (random_uniform W (world s)) \<and>
             get_node_for_state (knowledge s) (observation s) \<noteq> None)"
  then show "select_action W epsilon s =
              Inr (fst (env_sample W (snd (random_uniform W (world s)))),
                   s\<lparr>world := snd (env_sample W (snd (random_uniform W (world s))))\<rparr>)"
    by (rule select_action_explore)
next
  fix e
  assume "get_node_for_state (knowledge s) (observation s) = None"
  then show "select_action W e s =
              Inr (fst (env_sample W (snd (random_uniform W (world s)))),
                   s\<lparr>world := snd (env_sample W (snd (random_uniform W (world s))))\<rparr>)"
    by (intro select_action_explore) simp
qed

lemma one_state_ok: "knowledge_ok one_state"
  by (simp add: knowledge_ok_def one_state_def node_ok_def)

lemma Knowledge_init_ok: "knowledge_ok Knowledge_init"
  by (simp add: knowledge_ok_def Knowledge_init_def)

lemma mock_world_ok: "world_ok mock_world"
  by (simp add: world_ok_def mock_world_def)

lemma endless_world_ok: "world_ok endless_world"
  by (simp add: world_ok_def endless_world_def)

lemma one_state_best:
  "best_action \<lparr>action_quality = [3 / 4, 0, 0, 0], action_count = [1, 0, 0, 0]\<rparr> 0 = Inr 0"
  by code_simp

text \<open>C3, in the mock environment: a state with a node and a state without.\<close>

theorem select_action_policy_witness:
  "knowledge_ok (knowledge known_state) \<and> world_ok mock_world \<and>
   1 / 10 < fst (random_uniform mock_world (world known_state)) \<and>
   get_node_for_state (knowledge known_state) (observation known_state) =
     Some \<lparr>action_quality = [3 / 4, 0, 0, 0], action_count = [1, 0, 0, 0]\<rparr> \<and>
   select_action mock_world (1 / 10) known_state =
     Inr (0, known_state\<lparr>best_actions_used := 1, world := 0\<rparr>) \<and>
   knowledge_ok (knowledge start_state) \<and>
   get_node_for_state (knowledge start_state) (observation start_state) = None \<and>
   select_action mock_world (1 / 10) start_state = Inr (1, start_state\<lparr>world := 0\<rparr>) \<and>
   select_action mock_world 0 start_state = Inr (1, start_state\<lparr>world := 0\<rparr>)"
proof -
  let ?n = "\<lparr>action_quality = [3 / 4, 0, 0, 0], action_count = [1, 0, 0, 0]\<rparr>"
  have k1: "knowledge_ok (knowledge known_state)"
    by (simp add: known_state_def one_state_ok)
  have k2: "knowledge_ok (knowledge start_state)"
    by (simp add: start_state_def Knowledge_init_ok)
  have r: "1 / 10 < fst (random_uniform mock_world (world known_state))"
    by (simp add: mock_world_def)
  have g1: "get_node_for_state (knowledge known_state) (observation known_state) = Some ?n"
    by (simp add: known_state_def one_state_def get_node_for_state_def)
  have g2: "get_node_for_state (knowledge start_state) (observation start_state) = None"
    by (simp add: start_state_def Knowledge_init_def get_node_for_state_def)
  note t1 = select_action_policy[OF k1 mock_world_ok, of "1 / 10"]
  note t2 = select_action_policy[OF k2 mock_world_ok, of "1 / 10"]
  from t1 r g1 obtain a where
    a: "best_action ?n (fst (random_position mock_world (card (maximal_actions ?n))
                            (snd (random_uniform mock_world (world known_state))))) = Inr a"
    and s: "select_action mock_world (1 / 10) known_state =
              Inr (a, known_state\<lparr>best_actions_used := best_actions_used known_state + 1,
                     world := snd (random_position mock_world (card (maximal_actions ?n))
                                     (snd (random_uniform mock_world (world known_state))))\<rparr>)"
    by blast
  from a have "a = 0" by (simp add: mock_world_def one_state_best)
  with s have e1: "select_action mock_world (1 / 10) known_state =
     Inr (0, known_state\<lparr>best_actions_used := 1, world := 0\<rparr>)"
    by (simp add: mock_world_def known_state_def start_state_def)
  from t2 g2 have "\<forall>e. select_action mock_world e start_state =
              Inr (fst (env_sample mock_world (snd (random_uniform mock_world (world start_state)))),
                   start_state\<lparr>world := snd (env_sample mock_world (snd (random_uniform mock_world (world start_state))))\<rparr>)"
    by blast
  then have e2: "select_action mock_world e start_state = Inr (1, start_state\<lparr>world := 0\<rparr>)" for e
    by (simp add: mock_world_def start_state_def)
  from k1 k2 mock_world_ok r g1 g2 e1 e2 show ?thesis by blast
qed

section \<open>The TD(\<open>\<lambda>\<close>) estimate\<close>

lemma fl_unit_interval:
  assumes "0 \<le> x" and "x \<le> 1"
  shows "0 \<le> fl x \<and> fl x \<le> 1"
proof (cases "x = 0 \<or> x = 1")
  case True
  then show ?thesis by (auto simp: fl_0 fl_1)
next
  case False
  with assms have pos: "0 < x" and lt: "x < 1" by simp_all
  define e where "e = max (ilog2 \<bar>x\<bar>) (- 1022)"
  define u :: rat where "u = power_int 2 (e - 52)"
  define n where "n = rne (x / u)"
  have u: "0 < u" by (simp add: u_def)
  have flx: "fl x = of_int n * u"
    using pos by (simp add: fl_def Let_def e_def u_def n_def)
  have ax: "\<bar>x\<bar> = x" using pos by simp
  have "power_int (2::rat) (ilog2 x) \<le> x" by (rule ilog2_bounds(1)[OF pos])
  also have "\<dots> < power_int 2 0" using lt by simp
  finally have "ilog2 x < 0" by (simp only: powi2_less_iff)
  then have e: "e + 1 \<le> 0" by (simp add: e_def ax)
  have pe1: "power_int (2::rat) (e + 1) = 2 ^ 53 * u"
    using powi2_split[of e] by (simp only: powi2_succ u_def) simp
  have "x < power_int 2 (ilog2 x + 1)" by (rule ilog2_bounds(2)[OF pos])
  also have "\<dots> \<le> power_int 2 (e + 1)"
    by (rule power_int_increasing) (simp_all add: e_def ax)
  finally have "x < 2 ^ 53 * u" by (simp only: pe1)
  then have "x / u \<le> of_int (2 ^ 53)" using u by (simp add: pos_divide_le_eq)
  then have nle: "n \<le> 2 ^ 53" unfolding n_def by (rule rne_upper)
  have "of_int 0 \<le> x / u" using pos u by simp
  then have nge: "0 \<le> n" unfolding n_def by (rule rne_lower)
  have "fl x \<le> of_int (2 ^ 53) * u"
    unfolding flx using nle u by (intro mult_right_mono) (simp_all only: of_int_le_iff)
  also have "\<dots> = power_int 2 (e + 1)" by (simp add: pe1)
  also have "\<dots> \<le> power_int 2 0" using e by (intro power_int_increasing) simp_all
  finally have "fl x \<le> 1" by simp
  moreover have "0 \<le> fl x" unfolding flx using nge u by simp
  ultimately show ?thesis by simp
qed

lemma rounded_pow_in_range: "pow_in_range rounded_pow"
proof -
  have "rounded_pow x k \<noteq> None" if "0 \<le> x" "x < 1" for x k
  proof -
    have "0 \<le> x ^ k" "x ^ k \<le> 1" using that by (simp_all add: power_le_one)
    then have "0 \<le> fl (x ^ k) \<and> fl (x ^ k) \<le> 1" by (rule fl_unit_interval)
    then have "\<bar>fl (x ^ k)\<bar> \<le> 1" by simp
    also have "(1::rat) < 2 ^ 1024" by simp
    finally show ?thesis by (simp add: rounded_pow_def)
  qed
  then show ?thesis by (simp add: pow_in_range_def)
qed

lemma fpow_0: "fpow pw x 0 = Inr 1"
  by (simp add: fpow_def)

lemma fpow_value:
  assumes "pow_in_range pw" and "0 \<le> x" and "x < 1"
  shows "fpow pw x k = Inr (pow_value pw x k)"
proof (cases "k = 0")
  case True
  then show ?thesis by (simp add: pow_value_def fpow_def)
next
  case False
  from assms have "pw x k \<noteq> None" by (simp add: pow_in_range_def)
  then obtain y where "pw x k = Some y" by auto
  with False show ?thesis by (simp add: pow_value_def fpow_def)
qed

lemma fmul_1_right: "fmul (fl x) 1 = fl x"
  by (simp add: fmul_def fl_idem)

lemma lambda_multiplier_0: "lambda_multiplier pw llambda 0 = Inr (fsub 1 llambda)"
  by (simp add: lambda_multiplier_def fpow_0 fsub_def fmul_1_right)

lemma lambda_multiplier_value:
  assumes "pow_in_range pw" and "0 \<le> llambda" and "llambda < 1"
  shows "lambda_multiplier pw llambda k = Inr (fmul (fsub 1 llambda) (pow_value pw llambda k))"
  by (simp add: lambda_multiplier_def fpow_value[OF assms])

lemma td_first_eq:
  "td_first pw llambda hist = Inr (map (\<lambda>h. fmul (reward_of h) (fsub 1 llambda)) hist)"
  by (induction hist) (simp_all add: lambda_multiplier_0)

lemma td_passes_fold:
  assumes "pow_in_range pw" and "0 \<le> llambda" and "llambda < 1"
  shows "td_passes pw llambda hist ks est =
         Inr (fold (\<lambda>k. td_pass hist k (fmul (fsub 1 llambda) (pow_value pw llambda k))) ks est)"
  by (induction ks arbitrary: est) (simp_all add: lambda_multiplier_value[OF assms])

lemma td_lambda_estimate_fold:
  assumes "pow_in_range pw" and "0 \<le> llambda" and "llambda < 1"
  shows "td_lambda_estimate pw llambda hist =
         Inr (fold (\<lambda>k. td_pass hist k (fmul (fsub 1 llambda) (pow_value pw llambda k)))
                [1..<min 10 (length hist)]
                (map (\<lambda>h. fmul (reward_of h) (fsub 1 llambda)) hist))"
  by (simp add: td_lambda_estimate_def td_first_eq td_passes_fold[OF assms])

lemma td_range: "[1..<min 10 n] = [1..<Suc (min 9 (n - 1))]"
proof (cases "n = 0")
  case True
  then show ?thesis by simp
next
  case False
  then have "min 10 n = Suc (min 9 (n - 1))" by arith
  then show ?thesis by (simp only:)
qed

lemma fold_upd_length: "length (fold (\<lambda>j e. e[j := g j e]) js est) = length est"
  by (induction js arbitrary: est) simp_all

lemma fold_upd_nth:
  "m \<le> length est \<Longrightarrow> i < length est \<Longrightarrow>
   fold (\<lambda>j e. e[j := g j (e ! j)]) [0..<m] est ! i = (if i < m then g i (est ! i) else est ! i)"
proof (induction m arbitrary: i)
  case 0
  then show ?case by simp
next
  case (Suc m)
  let ?e = "fold (\<lambda>j e. e[j := g j (e ! j)]) [0..<m] est"
  have len: "length ?e = length est" by (rule fold_upd_length)
  have ih: "?e ! j = (if j < m then g j (est ! j) else est ! j)" if "j < length est" for j
    using Suc.prems(1) that by (simp add: Suc.IH)
  have step: "fold (\<lambda>j e. e[j := g j (e ! j)]) [0..<Suc m] est = ?e[m := g m (?e ! m)]"
    by simp
  show ?case
  proof (cases "i = m")
    case True
    with Suc.prems show ?thesis by (simp only: step) (simp add: len ih)
  next
    case False
    with Suc.prems show ?thesis by (simp only: step) (simp add: len ih)
  qed
qed

lemma td_pass_length: "length (td_pass hist k m est) = length est"
  unfolding td_pass_def by (rule fold_upd_length)

lemma td_pass_nth:
  assumes "length est = length hist" and "i < length hist"
  shows "td_pass hist k m est ! i =
         (if i + k < length hist
          then fadd (est ! i) (fmul (reward_of (hist ! (i + k))) m)
          else est ! i)"
proof -
  have "td_pass hist k m est ! i =
        (if i < length hist - k
         then fadd (est ! i) (fmul (reward_of (hist ! (i + k))) m)
         else est ! i)"
    unfolding td_pass_def
    by (rule fold_upd_nth[where g = "\<lambda>j x. fadd x (fmul (reward_of (hist ! (j + k))) m)"])
       (use assms in simp_all)
  then show ?thesis by (simp add: less_diff_conv)
qed

text \<open>The estimate of one step, as the script accumulates it.\<close>

lemma td_fold_nth:
  assumes "length est = length hist" and "i < length hist"
  shows "fold (\<lambda>k. td_pass hist k (w k)) ks est ! i =
         fold (\<lambda>k acc. if i + k < length hist
                        then fadd acc (fmul (reward_of (hist ! (i + k))) (w k))
                        else acc) ks (est ! i)"
  using assms
proof (induction ks arbitrary: est)
  case Nil
  then show ?case by simp
next
  case (Cons k ks)
  have "length (td_pass hist k (w k) est) = length hist"
    using Cons.prems by (simp add: td_pass_length)
  from Cons.IH[OF this Cons.prems(2)] show ?case
    using Cons.prems by (simp add: td_pass_nth)
qed

lemma td_fold_length: "length (fold (\<lambda>k. td_pass hist k (w k)) ks est) = length est"
  by (induction ks arbitrary: est) (simp_all add: td_pass_length)

lemma td_pass_spec:
  assumes "1 \<le> k" and "k < length hist"
  shows "td_pass hist k (fmul (fsub 1 llambda) (p llambda k)) est =
         (let weight = fmul (fsub 1 llambda) (p llambda k)
          in fold (\<lambda>i target. target[i := fadd (target ! i) (fmul (map reward_of hist ! (i + k)) weight)])
                  [0..<Suc (length (map reward_of hist) - 1 - k)] est)"
proof -
  have r: "Suc (length (map reward_of hist) - 1 - k) = length hist - k"
    using assms by simp
  show ?thesis
    unfolding td_pass_def Let_def r
    by (rule fold_cong) (use assms in auto)
qed

lemma td_spec_fold:
  "td_spec K p llambda (map reward_of hist) =
   fold (\<lambda>k. td_pass hist k (fmul (fsub 1 llambda) (p llambda k)))
        [1..<Suc (min K (length hist - 1))]
        (map (\<lambda>h. fmul (reward_of h) (fsub 1 llambda)) hist)"
proof -
  have "fold (\<lambda>k. td_pass hist k (fmul (fsub 1 llambda) (p llambda k)))
          [1..<Suc (min K (length hist - 1))]
          (map (\<lambda>h. fmul (reward_of h) (fsub 1 llambda)) hist) =
        fold (\<lambda>k target.
             let weight = fmul (fsub 1 llambda) (p llambda k)
             in fold (\<lambda>i target. target[i := fadd (target ! i) (fmul (map reward_of hist ! (i + k)) weight)])
                     [0..<Suc (length (map reward_of hist) - 1 - k)] target)
          [1..<Suc (min K (length (map reward_of hist) - 1))]
          (map (\<lambda>x. fmul x (fsub 1 llambda)) (map reward_of hist))"
  proof (rule fold_cong)
    show "map (\<lambda>h. fmul (reward_of h) (fsub 1 llambda)) hist =
          map (\<lambda>x. fmul x (fsub 1 llambda)) (map reward_of hist)"
      by (simp add: comp_def)
    show "[1..<Suc (min K (length hist - 1))] = [1..<Suc (min K (length (map reward_of hist) - 1))]"
      by (simp only: length_map)
  next
    fix k assume "k \<in> set [1..<Suc (min K (length hist - 1))]"
    then have "1 \<le> k" "k < length hist" by auto
    then show "td_pass hist k (fmul (fsub 1 llambda) (p llambda k)) = (\<lambda>target.
             let weight = fmul (fsub 1 llambda) (p llambda k)
             in fold (\<lambda>i target. target[i := fadd (target ! i) (fmul (map reward_of hist ! (i + k)) weight)])
                     [0..<Suc (length (map reward_of hist) - 1 - k)] target)"
      by (intro ext td_pass_spec)
  qed
  then show ?thesis by (simp only: td_spec_def)
qed

lemma td_lambda_estimate_length:
  "td_lambda_estimate pw llambda hist = Inr estimate \<Longrightarrow> length estimate = length hist"
proof -
  have "td_passes pw llambda hist ks est = Inr estimate \<Longrightarrow> length estimate = length est"
    for ks est
    by (induction ks arbitrary: est) (auto simp: td_pass_length split: sum.splits)
  then show "td_lambda_estimate pw llambda hist = Inr estimate \<Longrightarrow> length estimate = length hist"
    by (auto simp: td_lambda_estimate_def td_first_eq)
qed

lemma td_lambda_estimate_nth:
  assumes "pow_in_range pw" and "0 \<le> llambda" and "llambda < 1" and "i < length hist"
  shows "\<exists>estimate. td_lambda_estimate pw llambda hist = Inr estimate \<and>
         estimate ! i =
         fold (\<lambda>k acc. if i + k < length hist
                        then fadd acc (fmul (reward_of (hist ! (i + k)))
                                            (fmul (fsub 1 llambda) (pow_value pw llambda k)))
                        else acc)
              [1..<min 10 (length hist)] (fmul (reward_of (hist ! i)) (fsub 1 llambda))"
  using td_fold_nth[of "map (\<lambda>h. fmul (reward_of h) (fsub 1 llambda)) hist" hist i
      "\<lambda>k. fmul (fsub 1 llambda) (pow_value pw llambda k)" "[1..<min 10 (length hist)]"] assms(4)
  by (simp add: td_lambda_estimate_fold[OF assms(1,2,3)])


lemma fmul_0_left: "fmul 0 x = 0"
  by (simp add: fmul_def fl_0)

lemma fadd_0_0: "fadd 0 0 = 0"
  by (simp add: fadd_def fl_0)

lemma fl_half: "fl (1 / 2) = 1 / 2"
  by code_simp

lemma td_lambda_estimate_single:
  "td_lambda_estimate pw llambda [h] = Inr [fmul (reward_of h) (fsub 1 llambda)]"
  by (simp add: td_lambda_estimate_def lambda_multiplier_0)

lemma four_steps_estimate:
  assumes "pow_in_range pw"
  shows "\<exists>target. td_lambda_estimate pw (1 / 2) four_steps = Inr target \<and>
                  target ! 0 = 1 / 2 \<and> target ! 3 = 0"
proof -
  have h: "(0::rat) \<le> 1 / 2" "(1 / 2 :: rat) < 1" by simp_all
  have len: "length four_steps = 4" by (simp add: four_steps_def)
  have r: "[1..<min 10 (length four_steps)] = [1, 2, 3]"
    by (simp add: len upt_rec)
  from td_lambda_estimate_nth[OF assms h, of 0 four_steps]
  obtain target where t: "td_lambda_estimate pw (1 / 2) four_steps = Inr target"
    and t0: "target ! 0 =
         fold (\<lambda>k acc. if 0 + k < length four_steps
                        then fadd acc (fmul (reward_of (four_steps ! (0 + k)))
                                            (fmul (fsub 1 (1 / 2)) (pow_value pw (1 / 2) k)))
                        else acc)
              [1..<min 10 (length four_steps)] (fmul (reward_of (four_steps ! 0)) (fsub 1 (1 / 2)))"
    by (auto simp: len)
  from td_lambda_estimate_nth[OF assms h, of 3 four_steps] t
  have t3: "target ! 3 =
         fold (\<lambda>k acc. if 3 + k < length four_steps
                        then fadd acc (fmul (reward_of (four_steps ! (3 + k)))
                                            (fmul (fsub 1 (1 / 2)) (pow_value pw (1 / 2) k)))
                        else acc)
              [1..<min 10 (length four_steps)] (fmul (reward_of (four_steps ! 3)) (fsub 1 (1 / 2)))"
    by (auto simp: len)
  have "target ! 0 = 1 / 2"
    unfolding t0 r
    by (simp add: four_steps_def reward_of_def fadd_def fmul_def fsub_def fl_0 fl_half)
  moreover have "target ! 3 = 0"
    unfolding t3 r
    by (simp add: four_steps_def reward_of_def fmul_0_left)
  ultimately show ?thesis using t by blast
qed

text \<open>
  C1, with the lookahead of the script. For every recorded episode and every \<open>\<lambda>\<close> in
  \<open>[0, 1)\<close>, with a library whose \<^verbatim>\<open>pow\<close> reports no overflow for such a base, the script
  raises nothing and the estimates it computes are those of the specification's algorithm
  with the lookahead \<open>k\<close> running from 1 up to \<open>min (9, n - 1)\<close>: \<open>target[i]\<close> starts as
  \<open>r[i] * (1 - \<lambda>)\<close>, and each \<open>k\<close> adds \<open>r[i + k] * ((1 - \<lambda>) * \<lambda>^k)\<close> to \<open>target[i]\<close> for
  every \<open>i\<close> in \<open>0 \<dots> n - 1 - k\<close>, the power being the one the library returns. An episode of
  a single step gets only the first pass. For the rewards 1, 0, 0, 0 and \<open>\<lambda> = 0.5\<close> the
  first estimate is 0.5 and the fourth is 0.
\<close>

theorem td_lambda_estimate_spec:
  assumes "0 \<le> llambda" and "llambda < 1" and "pow_in_range pw"
  shows "td_lambda_estimate pw llambda hist =
           Inr (td_spec 9 (pow_value pw) llambda (map reward_of hist)) \<and>
         td_lambda_estimate pw llambda [h] = Inr [fmul (reward_of h) (fsub 1 llambda)] \<and>
         map reward_of four_steps = [1, 0, 0, 0] \<and>
         (\<exists>target. td_lambda_estimate pw (1 / 2) four_steps = Inr target \<and>
                   target ! 0 = 1 / 2 \<and> target ! 3 = 0)"
proof -
  have "td_lambda_estimate pw llambda hist =
           Inr (td_spec 9 (pow_value pw) llambda (map reward_of hist))"
    by (simp only: td_lambda_estimate_fold[OF assms(3,1,2)] td_spec_fold td_range)
  moreover have "map reward_of four_steps = [1, 0, 0, 0]"
    by (simp add: four_steps_def reward_of_def)
  ultimately show ?thesis
    using four_steps_estimate[OF assms(3)] by (simp add: td_lambda_estimate_single)
qed

lemma four_steps_rounded: "td_lambda_estimate rounded_pow (1 / 2) four_steps = Inr [1 / 2, 0, 0, 0]"
  by code_simp

text \<open>
  C1, for \<open>\<lambda> = 0.5\<close>, the correctly rounded library and the rewards 1, 0, 0, 0.
\<close>

theorem td_lambda_estimate_spec_witness:
  "(0::rat) \<le> 1 / 2 \<and> (1 / 2 :: rat) < 1 \<and> pow_in_range rounded_pow \<and>
   td_lambda_estimate rounded_pow (1 / 2) four_steps = Inr [1 / 2, 0, 0, 0] \<and>
   td_spec 9 (pow_value rounded_pow) (1 / 2) (map reward_of four_steps) = [1 / 2, 0, 0, 0]"
proof -
  have h: "(0::rat) \<le> 1 / 2" "(1 / 2 :: rat) < 1" by simp_all
  from td_lambda_estimate_spec[OF h rounded_pow_in_range, of four_steps]
  have "td_lambda_estimate rounded_pow (1 / 2) four_steps =
           Inr (td_spec 9 (pow_value rounded_pow) (1 / 2) (map reward_of four_steps))"
    by blast
  then have "td_spec 9 (pow_value rounded_pow) (1 / 2) (map reward_of four_steps) = [1 / 2, 0, 0, 0]"
    by (simp add: four_steps_rounded)
  with h rounded_pow_in_range four_steps_rounded show ?thesis by blast
qed

lemma pow_value_half_10: "pow_value rounded_pow (1 / 2) 10 = 1 / 1024"
  by code_simp

lemma pow_value_half_10_Suc:
  "pow_value rounded_pow (1 / 2) (Suc (Suc (Suc (Suc (Suc (Suc (Suc (Suc (Suc (Suc 0)))))))))) = 1 / 1024"
  using pow_value_half_10 by (simp add: eval_nat_numeral)

lemma weight_2048: "fadd 0 (fmul 1 (fmul (fsub 1 (1 / 2)) (1 / 1024))) = 1 / 2048"
  by code_simp

lemma eleven_code:
  "\<exists>estimate. td_lambda_estimate rounded_pow (1 / 2) eleven_steps = Inr estimate \<and> estimate ! 0 = 0"
proof -
  have h: "(0::rat) \<le> 1 / 2" "(1 / 2 :: rat) < 1" by simp_all
  have len: "length eleven_steps = 11" by (simp add: eleven_steps_def)
  from td_lambda_estimate_nth[OF rounded_pow_in_range h, of 0 eleven_steps]
  obtain estimate where t: "td_lambda_estimate rounded_pow (1 / 2) eleven_steps = Inr estimate"
    and t0: "estimate ! 0 =
         fold (\<lambda>k acc. if 0 + k < length eleven_steps
                        then fadd acc (fmul (reward_of (eleven_steps ! (0 + k)))
                                            (fmul (fsub 1 (1 / 2)) (pow_value rounded_pow (1 / 2) k)))
                        else acc)
              [1..<min 10 (length eleven_steps)] (fmul (reward_of (eleven_steps ! 0)) (fsub 1 (1 / 2)))"
    by (auto simp: len)
  have "estimate ! 0 = 0"
    unfolding t0
    by (simp add: eleven_steps_def reward_of_def fmul_0_left fadd_0_0 upt_rec nth_append)
  with t show ?thesis by blast
qed

lemma eleven_spec:
  "td_spec 10 (pow_value rounded_pow) (1 / 2) (map reward_of eleven_steps) ! 0 = 1 / 2048"
proof -
  have "td_spec 10 (pow_value rounded_pow) (1 / 2) (map reward_of eleven_steps) ! 0 =
        fold (\<lambda>k acc. if 0 + k < length eleven_steps
                        then fadd acc (fmul (reward_of (eleven_steps ! (0 + k)))
                                            (fmul (fsub 1 (1 / 2)) (pow_value rounded_pow (1 / 2) k)))
                        else acc)
             [1..<Suc (min 10 (length eleven_steps - 1))]
             (map (\<lambda>h. fmul (reward_of h) (fsub 1 (1 / 2))) eleven_steps ! 0)"
    unfolding td_spec_fold
    by (rule td_fold_nth) (simp_all add: eleven_steps_def)
  also have "\<dots> = 1 / 2048"
    by (simp add: eleven_steps_def reward_of_def fmul_0_left fadd_0_0 upt_rec nth_append
          pow_value_half_10_Suc weight_2048)
  finally show ?thesis .
qed

text \<open>
  C1 as stated, with the lookahead running up to \<open>min (10, n - 1)\<close>, fails for \<open>\<lambda> = 0.5\<close>
  on an episode of eleven steps: the specification's eleventh term adds the last reward,
  weighted by \<open>(1 - \<lambda>) * \<lambda>^10\<close>, to the first estimate; the script stops at \<open>k = 9\<close>.
\<close>

theorem td_lookahead_counterexample:
  "(0::rat) \<le> 1 / 2 \<and> (1 / 2 :: rat) < 1 \<and> pow_in_range rounded_pow \<and>
   length eleven_steps = 11 \<and>
   (\<exists>estimate. td_lambda_estimate rounded_pow (1 / 2) eleven_steps = Inr estimate \<and>
               estimate ! 0 = 0) \<and>
   td_spec 10 (pow_value rounded_pow) (1 / 2) (map reward_of eleven_steps) ! 0 = 1 / 2048 \<and>
   td_lambda_estimate rounded_pow (1 / 2) eleven_steps \<noteq>
     Inr (td_spec 10 (pow_value rounded_pow) (1 / 2) (map reward_of eleven_steps))"
proof -
  from eleven_code obtain estimate
    where t: "td_lambda_estimate rounded_pow (1 / 2) eleven_steps = Inr estimate"
      and z: "estimate ! 0 = 0"
    by blast
  have "estimate ! 0 \<noteq> td_spec 10 (pow_value rounded_pow) (1 / 2) (map reward_of eleven_steps) ! 0"
    by (simp add: z eleven_spec)
  then have "estimate \<noteq> td_spec 10 (pow_value rounded_pow) (1 / 2) (map reward_of eleven_steps)"
    by metis
  then have ne: "td_lambda_estimate rounded_pow (1 / 2) eleven_steps \<noteq>
     Inr (td_spec 10 (pow_value rounded_pow) (1 / 2) (map reward_of eleven_steps))"
    by (simp add: t)
  have len: "length eleven_steps = 11" by (simp add: eleven_steps_def)
  have h: "(0::rat) \<le> 1 / 2" "(1 / 2 :: rat) < 1" by simp_all
  from h rounded_pow_in_range len eleven_code eleven_spec ne show ?thesis by blast
qed

text \<open>
  Outside \<open>[0, 1)\<close> the power can overflow, and then the script raises
  \<^verbatim>\<open>OverflowError\<close> in the loop over \<^verbatim>\<open>td_factor\<close>: so it does for \<open>\<lambda> = 2 ^ 512\<close> and
  an episode of more than two steps.
\<close>

lemma lambda_multiplier_error: "lambda_multiplier pw llambda k = Inl e \<Longrightarrow> e = OverflowError"
  by (auto simp: lambda_multiplier_def fpow_def split: if_splits option.splits sum.splits)

lemma td_passes_overflow:
  assumes "k \<in> set ks" and "k \<noteq> 0" and "pw llambda k = None"
  shows "td_passes pw llambda hist ks est = Inl OverflowError"
  using assms(1)
proof (induction ks arbitrary: est)
  case Nil
  then show ?case by simp
next
  case (Cons j ks)
  show ?case
  proof (cases "lambda_multiplier pw llambda j")
    case (Inl e)
    then show ?thesis by (simp add: lambda_multiplier_error[OF Inl])
  next
    case (Inr m)
    have "j \<noteq> k"
    proof
      assume "j = k"
      with assms(2,3) have "lambda_multiplier pw llambda j = Inl OverflowError"
        by (simp add: lambda_multiplier_def fpow_def)
      with Inr show False by simp
    qed
    with Cons.prems have "k \<in> set ks" by simp
    then show ?thesis by (simp add: Inr Cons.IH)
  qed
qed

lemma td_lambda_estimate_overflow:
  assumes "pw llambda k = None" and "1 \<le> k" and "k < 10" and "k < length hist"
  shows "td_lambda_estimate pw llambda hist = Inl OverflowError"
proof -
  from assms(2,3,4) have "k \<in> set [1..<min 10 (length hist)]" by simp
  moreover from assms(2) have "k \<noteq> 0" by simp
  ultimately have "td_passes pw llambda hist [1..<min 10 (length hist)] est = Inl OverflowError"
    for est
    using assms(1) by (rule td_passes_overflow)
  then show ?thesis by (simp add: td_lambda_estimate_def td_first_eq)
qed

lemma rounded_pow_overflow: "rounded_pow (2 ^ 512) 2 = None"
proof -
  have "fl (of_int (2 ^ 52) * power_int 2 (1024 - 52)) = of_int (2 ^ 52) * power_int (2::rat) (1024 - 52)"
    by (rule fl_grid) simp_all
  moreover have "of_int (2 ^ 52) * power_int (2::rat) (1024 - 52) = 2 ^ 1024"
    by (simp add: power_int_def flip: power_add)
  moreover have "((2::rat) ^ 512) ^ 2 = 2 ^ 1024"
    by (simp flip: power_mult)
  ultimately have "fl ((2 ^ 512) ^ 2) = 2 ^ 1024" by simp
  then show ?thesis unfolding rounded_pow_def by simp
qed

lemma four_steps_overflow:
  "td_lambda_estimate rounded_pow (2 ^ 512) four_steps = Inl OverflowError"
  by (rule td_lambda_estimate_overflow[of rounded_pow "2 ^ 512" 2, OF rounded_pow_overflow])
    (simp_all add: four_steps_def)

section \<open>The episode loop\<close>

lemma select_action_total:
  assumes "knowledge_ok (knowledge s)" and "world_ok W"
  shows "\<exists>a w. select_action W epsilon s = Inr (a, s\<lparr>world := w\<rparr>) \<and> 0 \<le> a \<and> a < 4 \<or>
               select_action W epsilon s =
                 Inr (a, s\<lparr>best_actions_used := best_actions_used s + 1, world := w\<rparr>) \<and> 0 \<le> a \<and> a < 4"
proof (cases "epsilon < fst (random_uniform W (world s)) \<and>
              get_node_for_state (knowledge s) (observation s) \<noteq> None")
  case True
  then obtain node where n: "get_node_for_state (knowledge s) (observation s) = Some node" by auto
  then have "node_ok node" using assms(1) by (auto intro: knowledge_ok_lookup)
  from select_action_exploit[OF _ n this assms(2), of epsilon] True
  obtain a where "a \<in> maximal_actions node"
    "select_action W epsilon s =
       Inr (a, s\<lparr>best_actions_used := best_actions_used s + 1,
                 world := snd (random_position W (card (maximal_actions node))
                                 (snd (random_uniform W (world s))))\<rparr>)"
    by blast
  then show ?thesis using maximal_actions_range[of a node] by blast
next
  case False
  from select_action_explore[OF False] world_ok_sample[OF assms(2)]
  show ?thesis by blast
qed

text \<open>What a call of \<open>select_action\<close> leaves alone.\<close>

lemma select_action_frame:
  assumes "knowledge_ok (knowledge s)" and "world_ok W"
  shows "\<exists>a s1. select_action W epsilon s = Inr (a, s1) \<and> 0 \<le> a \<and> a < 4 \<and>
           knowledge s1 = knowledge s \<and> total_moves s1 = total_moves s \<and>
           observation s1 = observation s \<and> history s1 = history s \<and>
           cumulative_reward s1 = cumulative_reward s \<and> done_flag s1 = done_flag s"
  using select_action_total[OF assms, of epsilon] by auto

lemma step_body_frame:
  assumes "knowledge_ok (knowledge s)" and "world_ok W"
  shows "\<exists>s' h. step_body W epsilon s = Inr s' \<and> knowledge s' = knowledge s \<and>
           total_moves s' = total_moves s \<and> history s' = history s @ [h] \<and>
           0 \<le> action_of h \<and> action_of h < 4"
proof -
  from select_action_frame[OF assms, of epsilon]
  obtain a s1 where sel: "select_action W epsilon s = Inr (a, s1)" and a: "0 \<le> a" "a < 4"
    and fr: "knowledge s1 = knowledge s" "total_moves s1 = total_moves s"
      "observation s1 = observation s" "history s1 = history s"
    by blast
  obtain obs reward dn w' where st: "env_step W a (world s1) = ((obs, reward, dn), w')"
    by (metis prod.exhaust)
  show ?thesis
    using a by (simp add: step_body_def sel st fr action_of_def)
qed

lemma episode_steps_unfold:
  assumes "t < 1000"
  shows "episode_steps W epsilon t s =
         (case step_body W epsilon s of
            Inl e \<Rightarrow> Inl e
          | Inr s' \<Rightarrow>
              if done_flag s' then Inr (s'\<lparr>total_moves := total_moves s' + (int t + 1)\<rparr>)
              else episode_steps W epsilon (t + 1) s')"
  by (subst episode_steps.simps)
     (simp add: assms step_body_def Let_def case_prod_beta split: sum.splits)

lemma passes_frame:
  assumes "world_ok W"
  shows "knowledge_ok (knowledge s) \<Longrightarrow>
         \<exists>s' new. passes W epsilon n s = Inr s' \<and> knowledge s' = knowledge s \<and>
           total_moves s' = total_moves s \<and> history s' = history s @ new \<and>
           length new = n \<and> actions_ok new"
proof (induction n arbitrary: s)
  case 0
  then show ?case by (simp add: actions_ok_def)
next
  case (Suc n)
  from step_body_frame[OF Suc.prems assms, of epsilon]
  obtain s1 h where b: "step_body W epsilon s = Inr s1" and k: "knowledge s1 = knowledge s"
    and t: "total_moves s1 = total_moves s" and h: "history s1 = history s @ [h]"
    and a: "0 \<le> action_of h" "action_of h < 4"
    by blast
  have "knowledge_ok (knowledge s1)" using Suc.prems by (simp add: k)
  from Suc.IH[OF this]
  obtain s' new where p: "passes W epsilon n s1 = Inr s'" and k': "knowledge s' = knowledge s1"
    and t': "total_moves s' = total_moves s1" and h': "history s' = history s1 @ new"
    and l: "length new = n" and ok: "actions_ok new"
    by blast
  have "actions_ok (h # new)" using a ok by (simp add: actions_ok_def)
  with p k' t' h' l show ?case
    by (intro exI[of _ s'] exI[of _ "h # new"]) (simp add: b k t h)
qed

text \<open>
  The step loop from the iteration \<open>t\<close> on: it makes \<open>m\<close> passes, where \<open>m\<close> is the first
  pass after which \<^verbatim>\<open>done\<close> is set, or the pass that reaches 1000.
\<close>

lemma episode_steps_stop:
  assumes "world_ok W"
  shows "knowledge_ok (knowledge s) \<Longrightarrow> t < 1000 \<Longrightarrow>
         \<exists>m sm. 1 \<le> m \<and> t + m \<le> 1000 \<and> passes W epsilon m s = Inr sm \<and>
           (\<forall>i. 1 \<le> i \<and> i < m \<longrightarrow> (\<exists>si. passes W epsilon i s = Inr si \<and> \<not> done_flag si)) \<and>
           (done_flag sm \<or> t + m = 1000) \<and>
           episode_steps W epsilon t s =
             Inr (if done_flag sm then sm\<lparr>total_moves := total_moves sm + int (t + m)\<rparr> else sm)"
proof (induction "1000 - t" arbitrary: t s)
  case 0
  then show ?case by simp
next
  case (Suc n)
  from step_body_frame[OF Suc.prems(1) assms, of epsilon]
  obtain s1 where b: "step_body W epsilon s = Inr s1" and k: "knowledge s1 = knowledge s"
    by blast
  have p1: "passes W epsilon 1 s = Inr s1" by (simp add: b)
  have unf: "episode_steps W epsilon t s =
             (if done_flag s1 then Inr (s1\<lparr>total_moves := total_moves s1 + (int t + 1)\<rparr>)
              else episode_steps W epsilon (t + 1) s1)"
    by (simp add: episode_steps_unfold[OF Suc.prems(2)] b)
  show ?case
  proof (cases "done_flag s1 \<or> t + 1 = 1000")
    case True
    have "episode_steps W epsilon t s =
          Inr (if done_flag s1 then s1\<lparr>total_moves := total_moves s1 + int (t + 1)\<rparr> else s1)"
    proof (cases "done_flag s1")
      case True
      then show ?thesis by (simp add: unf)
    next
      case False
      with True have "\<not> t + 1 < 1000" by simp
      then have "episode_steps W epsilon (t + 1) s1 = Inr s1"
        by (subst episode_steps.simps) simp
      with False show ?thesis by (simp add: unf)
    qed
    with True p1 Suc.prems(2) show ?thesis
      by (intro exI[of _ 1] exI[of _ s1]) simp
  next
    case False
    then have nd: "\<not> done_flag s1" and t1: "t + 1 < 1000" using Suc.prems(2) by simp_all
    have n: "n = 1000 - (t + 1)" using Suc.hyps(2) by simp
    have k1: "knowledge_ok (knowledge s1)" using Suc.prems(1) by (simp add: k)
    from Suc.hyps(1)[OF n k1 t1]
    obtain m sm where m: "1 \<le> m" "t + 1 + m \<le> 1000"
      and pm: "passes W epsilon m s1 = Inr sm"
      and before: "\<forall>i. 1 \<le> i \<and> i < m \<longrightarrow> (\<exists>si. passes W epsilon i s1 = Inr si \<and> \<not> done_flag si)"
      and stop: "done_flag sm \<or> t + 1 + m = 1000"
      and res: "episode_steps W epsilon (t + 1) s1 =
             Inr (if done_flag sm then sm\<lparr>total_moves := total_moves sm + int (t + 1 + m)\<rparr> else sm)"
      by blast
    have pm': "passes W epsilon (Suc m) s = Inr sm" by (simp add: b pm)
    have before': "\<exists>si. passes W epsilon i s = Inr si \<and> \<not> done_flag si"
      if "1 \<le> i" "i < Suc m" for i
    proof (cases "i = 1")
      case True
      with p1 nd show ?thesis by simp
    next
      case False
      with that obtain j where j: "i = Suc j" "1 \<le> j" "j < m" by (cases i) auto
      with before obtain si where "passes W epsilon j s1 = Inr si" "\<not> done_flag si" by blast
      then show ?thesis by (simp add: j b)
    qed
    have res': "episode_steps W epsilon t s =
             Inr (if done_flag sm then sm\<lparr>total_moves := total_moves sm + int (t + Suc m)\<rparr> else sm)"
      using nd res by (simp add: unf)
    from m pm' before' stop res' show ?thesis
      by (intro exI[of _ "Suc m"] exI[of _ sm]) simp
  qed
qed

lemma add_all_adds:
  "add_all kn ihs estimate alpha =
   adds kn (map (\<lambda>(idx, h). (fst h, fst (snd h), estimate ! idx, alpha)) ihs)"
  by (induction kn ihs estimate alpha rule: add_all.induct) (simp_all split: sum.splits)

lemma adds_ok:
  "knowledge_ok kn \<Longrightarrow> calls_ok calls \<Longrightarrow> \<exists>kn'. adds kn calls = Inr kn'"
proof (induction kn calls rule: adds.induct)
  case (1 self)
  then show ?case by simp
next
  case (2 self st action score alpha calls)
  from "2.prems" have a: "0 \<le> action" "action < 4" and rest: "calls_ok calls"
    by (simp_all add: calls_ok_def)
  from add_ok[OF "2.prems"(1) a] obtain k1 where k1: "add self st action score alpha = Inr k1"
    by blast
  then have "knowledge_ok k1" using "2.prems"(1) by (rule add_knowledge_ok)
  from "2.IH"[OF k1 this rest] k1 show ?case by simp
qed

lemma adds_count_of:
  "adds kn calls = Inr kn' \<Longrightarrow> knowledge_ok kn \<Longrightarrow> calls_ok calls \<Longrightarrow> b < 4 \<Longrightarrow>
   count_of kn' st b =
   count_of kn st b + int (length (filter (\<lambda>c. fst c = st \<and> fst (snd c) = int b) calls))"
proof (induction kn calls rule: adds.induct)
  case (1 self)
  then show ?case by simp
next
  case (2 self st' action score alpha calls)
  from "2.prems"(3) have a: "0 \<le> action" "action < 4" and rest: "calls_ok calls"
    by (simp_all add: calls_ok_def)
  from "2.prems"(1) obtain k1 where k1: "add self st' action score alpha = Inr k1"
    and r: "adds k1 calls = Inr kn'" by (auto split: sum.splits)
  have ok1: "knowledge_ok k1" using k1 "2.prems"(2) by (rule add_knowledge_ok)
  have "count_of k1 st b = count_of self st b + (if st = st' \<and> b = nat action then 1 else 0)"
    using k1 "2.prems"(2) a "2.prems"(4) by (rule add_count_of)
  moreover have "count_of kn' st b =
     count_of k1 st b + int (length (filter (\<lambda>c. fst c = st \<and> fst (snd c) = int b) calls))"
    using k1 r ok1 rest "2.prems"(4) by (rule "2.IH")
  moreover have "(b = nat action) = (action = int b)" using a by auto
  ultimately show ?case by auto
qed

lemma fold_calls_length: "length (fold_calls alpha estimate hist) = length hist"
  by (simp add: fold_calls_def)

lemma fold_calls_ok:
  assumes "actions_ok hist"
  shows "calls_ok (fold_calls alpha estimate hist)"
proof -
  have "0 \<le> fst (snd (snd p)) \<and> fst (snd (snd p)) < 4" if "p \<in> set (enumerate 0 hist)" for p
  proof -
    from that have "fst p < length hist" "hist ! fst p = snd p"
      by (simp_all add: in_set_enumerate_eq)
    then have "snd p \<in> set hist" by (metis nth_mem)
    with assms show ?thesis by (simp add: actions_ok_def action_of_def list_all_iff)
  qed
  then show ?thesis
    by (simp add: fold_calls_def calls_ok_def list_all_iff case_prod_beta)
qed

lemma fold_calls_count:
  "length (filter (\<lambda>c. fst c = st \<and> fst (snd c) = a) (fold_calls alpha estimate hist)) =
   length (filter (\<lambda>h. fst h = st \<and> fst (snd h) = a) hist)"
proof -
  let ?Q = "\<lambda>h :: step. fst h = st \<and> fst (snd h) = a"
  have "filter (\<lambda>c. fst c = st \<and> fst (snd c) = a) (fold_calls alpha estimate hist) =
        map (\<lambda>(idx, h). (fst h, fst (snd h), estimate ! idx, alpha))
          (filter (?Q \<circ> snd) (enumerate 0 hist))"
    by (simp add: fold_calls_def filter_map comp_def case_prod_beta)
  then have "length (filter (\<lambda>c. fst c = st \<and> fst (snd c) = a) (fold_calls alpha estimate hist)) =
        length (map snd (filter (?Q \<circ> snd) (enumerate 0 hist)))"
    by simp
  also have "map snd (filter (?Q \<circ> snd) (enumerate 0 hist)) = filter ?Q (map snd (enumerate 0 hist))"
    by (simp only: filter_map)
  also have "map snd (enumerate 0 hist) = hist" by simp
  finally show ?thesis .
qed

lemma reset_episode_frame:
  "knowledge (reset_episode W s) = knowledge s \<and> total_moves (reset_episode W s) = total_moves s \<and>
   history (reset_episode W s) = []"
  by (simp add: reset_episode_def case_prod_beta)

lemma run_episode_unfold:
  "run_episode W pw alpha epsilon llambda s =
     (case episode_steps W epsilon 0 (reset_episode W s) of
        Inl e \<Rightarrow> Inl e
      | Inr s1 \<Rightarrow>
          (case td_lambda_estimate pw llambda (history s1) of
             Inl e \<Rightarrow> Inl e
           | Inr estimate \<Rightarrow>
               (case adds (knowledge s1) (fold_calls alpha estimate (history s1)) of
                  Inl e \<Rightarrow> Inl e
                | Inr kn \<Rightarrow> Inr (s1\<lparr>knowledge := kn\<rparr>))))"
  unfolding run_episode_def reset_episode_def add_all_adds fold_calls_def case_prod_beta
  by (rule refl)

text \<open>One episode, under what the script relies on.\<close>

lemma run_episode_run:
  assumes "world_ok W" and "knowledge_ok (knowledge s)"
    and "pow_in_range pw" and "0 \<le> llambda" and "llambda < 1"
  shows "\<exists>s' sm estimate.
           run_episode W pw alpha epsilon llambda s = Inr s' \<and>
           1 \<le> length (history s') \<and> length (history s') \<le> 1000 \<and>
           passes W epsilon (length (history s')) (reset_episode W s) = Inr sm \<and>
           history s' = history sm \<and> done_flag s' = done_flag sm \<and>
           (\<forall>i. 1 \<le> i \<and> i < length (history s') \<longrightarrow>
              (\<exists>si. passes W epsilon i (reset_episode W s) = Inr si \<and> \<not> done_flag si)) \<and>
           (done_flag s' \<or> length (history s') = 1000) \<and>
           actions_ok (history s') \<and>
           td_lambda_estimate pw llambda (history s') = Inr estimate \<and>
           adds (knowledge s) (fold_calls alpha estimate (history s')) = Inr (knowledge s') \<and>
           knowledge_ok (knowledge s') \<and>
           total_moves s' =
             total_moves s + (if done_flag s' then int (length (history s')) else 0)"
proof -
  let ?s0 = "reset_episode W s"
  have k0: "knowledge_ok (knowledge ?s0)" using assms(2) by (simp add: reset_episode_frame)
  have "(0::nat) < 1000" by simp
  from episode_steps_stop[OF assms(1) k0 this, of epsilon]
  obtain m sm where m0: "1 \<le> m" "0 + m \<le> 1000" and pm: "passes W epsilon m ?s0 = Inr sm"
    and before: "\<forall>i. 1 \<le> i \<and> i < m \<longrightarrow> (\<exists>si. passes W epsilon i ?s0 = Inr si \<and> \<not> done_flag si)"
    and stop0: "done_flag sm \<or> 0 + m = 1000"
    and res0: "episode_steps W epsilon 0 ?s0 =
             Inr (if done_flag sm then sm\<lparr>total_moves := total_moves sm + int (0 + m)\<rparr> else sm)"
    by blast
  from m0 have m: "1 \<le> m" "m \<le> 1000" by simp_all
  from stop0 have stop: "done_flag sm \<or> m = 1000" by simp
  from res0 have res: "episode_steps W epsilon 0 ?s0 =
             Inr (if done_flag sm then sm\<lparr>total_moves := total_moves sm + int m\<rparr> else sm)"
    by simp
  from passes_frame[OF assms(1) k0, of epsilon m] pm
  obtain new where ksm: "knowledge sm = knowledge ?s0" and tsm: "total_moves sm = total_moves ?s0"
    and hsm: "history sm = history ?s0 @ new" and lnew: "length new = m" and ok: "actions_ok new"
    by auto
  have hsm': "history sm = new" using hsm by (simp add: reset_episode_frame)
  define s1 where "s1 = (if done_flag sm then sm\<lparr>total_moves := total_moves sm + int m\<rparr> else sm)"
  have s1: "history s1 = new" "done_flag s1 = done_flag sm" "knowledge s1 = knowledge s"
    "total_moves s1 = total_moves s + (if done_flag sm then int m else 0)"
    by (simp_all add: s1_def hsm' ksm tsm reset_episode_frame)
  from td_lambda_estimate_fold[OF assms(3,4,5), of new]
  obtain estimate where est: "td_lambda_estimate pw llambda new = Inr estimate" by blast
  from adds_ok[OF assms(2) fold_calls_ok[OF ok, of alpha estimate]]
  obtain kn where kn: "adds (knowledge s) (fold_calls alpha estimate new) = Inr kn" by blast
  then have okn: "knowledge_ok kn" using assms(2) by (rule adds_knowledge_ok)
  have r: "run_episode W pw alpha epsilon llambda s = Inr (s1\<lparr>knowledge := kn\<rparr>)"
    using kn res est
    by (simp add: run_episode_unfold s1_def[symmetric] s1)
  show ?thesis
    using m pm before stop ok est kn okn lnew
    by (intro exI[of _ "s1\<lparr>knowledge := kn\<rparr>"] exI[of _ sm] exI[of _ estimate])
       (simp add: r s1 hsm')
qed

lemma step_body_done:
  assumes "step_body W epsilon s = Inr s'" and "done_flag s'"
  shows "\<exists>a w. snd (snd (fst (env_step W a w)))"
proof -
  from assms(1) obtain a s1 where sel: "select_action W epsilon s = Inr (a, s1)"
    by (auto simp: step_body_def split: sum.splits)
  with assms have "snd (snd (fst (env_step W a (world s1))))"
    by (auto simp: step_body_def case_prod_beta)
  then show ?thesis by blast
qed

lemma passes_done:
  "passes W epsilon n s = Inr s' \<Longrightarrow> 1 \<le> n \<Longrightarrow> done_flag s' \<Longrightarrow>
   \<exists>a w. snd (snd (fst (env_step W a w)))"
proof (induction n arbitrary: s)
  case 0
  then show ?case by simp
next
  case (Suc n)
  from Suc.prems(1) obtain s1 where b: "step_body W epsilon s = Inr s1"
    and p: "passes W epsilon n s1 = Inr s'"
    by (auto split: sum.splits)
  show ?case
  proof (cases "n = 0")
    case True
    with p have "s' = s1" by simp
    with b Suc.prems(3) show ?thesis by (auto dest: step_body_done)
  next
    case False
    then have "1 \<le> n" by simp
    then show ?thesis by (rule Suc.IH[OF p _ Suc.prems(3)])
  qed
qed



text \<open>
  C7. For \<open>\<lambda>\<close> in \<open>[0, 1)\<close> every episode returns, with between 1 and 1000 recorded steps.
  The recorded steps are those of the passes of the loop body made from the reset state, one
  per pass; \<^verbatim>\<open>done\<close> is not set after any pass before the last, and after the
  last pass either \<^verbatim>\<open>done\<close> is set or 1000 steps are recorded: the loop stops at the
  first step for which the environment signals \<^verbatim>\<open>done\<close>, and otherwise after step 1000.
  \<^verbatim>\<open>done\<close> is set only if the environment signalled it. In both cases every recorded step
  is passed to \<^verbatim>\<open>add\<close> once, in order, with its estimate, so the count of each state and
  action grows by the number of steps that took that action in that state, and every node
  keeps its four qualities and four counts.
\<close>

theorem episode_capped_and_folded:
  assumes "world_ok W" and "knowledge_ok (knowledge s)"
    and "pow_in_range pw" and "0 \<le> llambda" and "llambda < 1"
  shows "\<exists>s' estimate.
           run_episode W pw alpha epsilon llambda s = Inr s' \<and>
           1 \<le> length (history s') \<and> length (history s') \<le> 1000 \<and>
           (done_flag s' \<or> length (history s') = 1000) \<and>
           (\<exists>sm. passes W epsilon (length (history s')) (reset_episode W s) = Inr sm \<and>
                 history s' = history sm \<and> done_flag s' = done_flag sm) \<and>
           (\<forall>i. 1 \<le> i \<and> i < length (history s') \<longrightarrow>
              (\<exists>si. passes W epsilon i (reset_episode W s) = Inr si \<and> \<not> done_flag si)) \<and>
           (done_flag s' \<longrightarrow> (\<exists>a w. snd (snd (fst (env_step W a w))))) \<and>
           td_lambda_estimate pw llambda (history s') = Inr estimate \<and>
           adds (knowledge s) (fold_calls alpha estimate (history s')) = Inr (knowledge s') \<and>
           length (fold_calls alpha estimate (history s')) = length (history s') \<and>
           knowledge_ok (knowledge s') \<and>
           (\<forall>st b. b < 4 \<longrightarrow>
              count_of (knowledge s') st b =
              count_of (knowledge s) st b +
              int (length (filter (\<lambda>h. fst h = st \<and> fst (snd h) = int b) (history s'))))"
proof -
  from run_episode_run[OF assms, of alpha epsilon]
  obtain s' sm estimate where r: "run_episode W pw alpha epsilon llambda s = Inr s'"
    and one: "1 \<le> length (history s')" and len: "length (history s') \<le> 1000"
    and pm: "passes W epsilon (length (history s')) (reset_episode W s) = Inr sm"
    and hs: "history s' = history sm" and ds: "done_flag s' = done_flag sm"
    and before: "\<forall>i. 1 \<le> i \<and> i < length (history s') \<longrightarrow>
              (\<exists>si. passes W epsilon i (reset_episode W s) = Inr si \<and> \<not> done_flag si)"
    and stop: "done_flag s' \<or> length (history s') = 1000"
    and ok: "actions_ok (history s')"
    and est: "td_lambda_estimate pw llambda (history s') = Inr estimate"
    and f: "adds (knowledge s) (fold_calls alpha estimate (history s')) = Inr (knowledge s')"
    and kok: "knowledge_ok (knowledge s')"
    by blast
  have sig: "done_flag s' \<longrightarrow> (\<exists>a w. snd (snd (fst (env_step W a w))))"
    using passes_done[OF pm one] ds by simp
  have cnt: "count_of (knowledge s') st b =
              count_of (knowledge s) st b +
              int (length (filter (\<lambda>h. fst h = st \<and> fst (snd h) = int b) (history s')))"
    if "b < 4" for st b
    using adds_count_of[OF f assms(2) fold_calls_ok[OF ok] that, of st]
    by (simp only: fold_calls_count)
  have pm': "\<exists>sm. passes W epsilon (length (history s')) (reset_episode W s) = Inr sm \<and>
                 history s' = history sm \<and> done_flag s' = done_flag sm"
    using pm hs ds by blast
  from r one len stop pm' before sig est f kok cnt show ?thesis
    by (intro exI[of _ s'] exI[of _ estimate]) (simp add: fold_calls_length)
qed


lemma mock_episode:
  "run_episode mock_world rounded_pow (1 / 2) (1 / 8) (1 / 2) start_state = Inr mock_result"
  by code_simp


lemma endless_never_done: "\<forall>a w. \<not> snd (snd (fst (env_step endless_world a w)))"
  by (simp add: endless_world_def)

lemma start_state_ok: "knowledge_ok (knowledge start_state)"
  by (simp add: start_state_def Knowledge_init_ok)

lemma half_unit: "(0::rat) \<le> 1 / 2" "(1 / 2 :: rat) < 1"
  by simp_all

text \<open>
  C7, in the mock environment (\<^verbatim>\<open>done\<close> at the third step) and in the endless one.
\<close>

theorem episode_capped_and_folded_witness:
  "world_ok mock_world \<and> world_ok endless_world \<and> knowledge_ok (knowledge start_state) \<and>
   pow_in_range rounded_pow \<and> (0::rat) \<le> 1 / 2 \<and> (1 / 2 :: rat) < 1 \<and>
   run_episode mock_world rounded_pow (1 / 2) (1 / 8) (1 / 2) start_state = Inr mock_result \<and>
   done_flag mock_result \<and> length (history mock_result) = 3 \<and>
   (\<exists>si. passes mock_world (1 / 8) 1 (reset_episode mock_world start_state) = Inr si \<and>
         \<not> done_flag si) \<and>
   (\<exists>si. passes mock_world (1 / 8) 2 (reset_episode mock_world start_state) = Inr si \<and>
         \<not> done_flag si) \<and>
   (\<exists>sm. passes mock_world (1 / 8) 3 (reset_episode mock_world start_state) = Inr sm \<and>
         done_flag sm \<and> history sm = history mock_result) \<and>
   (\<exists>estimate. td_lambda_estimate rounded_pow (1 / 2) (history mock_result) = Inr estimate \<and>
         adds (knowledge start_state) (fold_calls (1 / 2) estimate (history mock_result)) =
           Inr (knowledge mock_result) \<and>
         length (fold_calls (1 / 2) estimate (history mock_result)) = 3) \<and>
   (\<exists>s' estimate. run_episode endless_world rounded_pow (1 / 2) (1 / 8) (1 / 2) start_state = Inr s' \<and>
         \<not> done_flag s' \<and> length (history s') = 1000 \<and>
         (\<exists>si. passes endless_world (1 / 8) 999 (reset_episode endless_world start_state) = Inr si \<and>
               \<not> done_flag si) \<and>
         td_lambda_estimate rounded_pow (1 / 2) (history s') = Inr estimate \<and>
         adds (knowledge start_state) (fold_calls (1 / 2) estimate (history s')) =
           Inr (knowledge s') \<and>
         length (fold_calls (1 / 2) estimate (history s')) = 1000)"
proof -
  have d: "done_flag mock_result" "length (history mock_result) = 3"
    by (simp_all add: mock_result_def)
  from episode_capped_and_folded[OF mock_world_ok start_state_ok rounded_pow_in_range half_unit,
      of "1 / 2" "1 / 8"]
  obtain s' estimate where
        r: "run_episode mock_world rounded_pow (1 / 2) (1 / 8) (1 / 2) start_state = Inr s'"
    and pm: "\<exists>sm. passes mock_world (1 / 8) (length (history s'))
                    (reset_episode mock_world start_state) = Inr sm \<and>
                 history s' = history sm \<and> done_flag s' = done_flag sm"
    and before: "\<forall>i. 1 \<le> i \<and> i < length (history s') \<longrightarrow>
              (\<exists>si. passes mock_world (1 / 8) i (reset_episode mock_world start_state) = Inr si \<and>
                    \<not> done_flag si)"
    and est: "td_lambda_estimate rounded_pow (1 / 2) (history s') = Inr estimate"
    and f: "adds (knowledge start_state) (fold_calls (1 / 2) estimate (history s')) =
              Inr (knowledge s')"
    and l: "length (fold_calls (1 / 2) estimate (history s')) = length (history s')"
    by blast
  from r have s': "s' = mock_result" by (simp add: mock_episode)
  have m1: "\<exists>si. passes mock_world (1 / 8) 1 (reset_episode mock_world start_state) = Inr si \<and>
         \<not> done_flag si"
    using before[rule_format, of 1] by (simp add: s' d)
  have m2: "\<exists>si. passes mock_world (1 / 8) 2 (reset_episode mock_world start_state) = Inr si \<and>
         \<not> done_flag si"
    using before[rule_format, of 2] by (simp add: s' d)
  have m3: "\<exists>sm. passes mock_world (1 / 8) 3 (reset_episode mock_world start_state) = Inr sm \<and>
         done_flag sm \<and> history sm = history mock_result"
    using pm d unfolding s' by auto
  have m4: "\<exists>estimate. td_lambda_estimate rounded_pow (1 / 2) (history mock_result) = Inr estimate \<and>
         adds (knowledge start_state) (fold_calls (1 / 2) estimate (history mock_result)) =
           Inr (knowledge mock_result) \<and>
         length (fold_calls (1 / 2) estimate (history mock_result)) = 3"
    using est f l d unfolding s' by auto
  from episode_capped_and_folded[OF endless_world_ok start_state_ok rounded_pow_in_range half_unit,
      of "1 / 2" "1 / 8"]
  obtain e' estimate' where
        er: "run_episode endless_world rounded_pow (1 / 2) (1 / 8) (1 / 2) start_state = Inr e'"
    and ec: "done_flag e' \<or> length (history e') = 1000"
    and ebefore: "\<forall>i. 1 \<le> i \<and> i < length (history e') \<longrightarrow>
              (\<exists>si. passes endless_world (1 / 8) i (reset_episode endless_world start_state) = Inr si \<and>
                    \<not> done_flag si)"
    and esig: "done_flag e' \<longrightarrow> (\<exists>a w. snd (snd (fst (env_step endless_world a w))))"
    and eest: "td_lambda_estimate rounded_pow (1 / 2) (history e') = Inr estimate'"
    and ef: "adds (knowledge start_state) (fold_calls (1 / 2) estimate' (history e')) =
              Inr (knowledge e')"
    and el: "length (fold_calls (1 / 2) estimate' (history e')) = length (history e')"
    by blast
  from esig endless_never_done have nd: "\<not> done_flag e'" by blast
  with ec have len: "length (history e') = 1000" by simp
  have e999: "\<exists>si. passes endless_world (1 / 8) 999 (reset_episode endless_world start_state) = Inr si \<and>
               \<not> done_flag si"
    using ebefore[rule_format, of 999] by (simp add: len)
  have e: "\<exists>s' estimate. run_episode endless_world rounded_pow (1 / 2) (1 / 8) (1 / 2) start_state = Inr s' \<and>
         \<not> done_flag s' \<and> length (history s') = 1000 \<and>
         (\<exists>si. passes endless_world (1 / 8) 999 (reset_episode endless_world start_state) = Inr si \<and>
               \<not> done_flag si) \<and>
         td_lambda_estimate rounded_pow (1 / 2) (history s') = Inr estimate \<and>
         adds (knowledge start_state) (fold_calls (1 / 2) estimate (history s')) =
           Inr (knowledge s') \<and>
         length (fold_calls (1 / 2) estimate (history s')) = 1000"
    using er nd len e999 eest ef el by (intro exI[of _ e'] exI[of _ estimate']) simp
  from mock_world_ok endless_world_ok start_state_ok rounded_pow_in_range mock_episode d
    m1 m2 m3 m4 e
  show ?thesis by simp
qed


end
